theory Spec2Isabelle
  imports
    Main
    "HOL-Library.Char_ord"
    "HOL-Library.List_Lexorder"
    "HOL-Library.Multiset"
begin

section \<open>Python values used by \<open>app.py\<close>\<close>

text \<open>
  A Python \<open>str\<close> is modelled as a \<open>string\<close> whose characters are the code points
  0 to 255, so \<open>length\<close> is Python's \<open>len\<close> on such strings. Library behaviour
  follows CPython 3.11. Exceptions are values of \<open>py_error\<close>; a function that can
  raise returns \<open>py_error + 'a\<close> with \<open>Inl\<close> for the exception.
\<close>

datatype py_error =
    ValueError
  | TypeError
  | KeyError
  | FileNotFoundError
  | CsvError
  | HTTPException nat string

abbreviation LF :: char where "LF \<equiv> CHR 0x0A"
abbreviation CR :: char where "CR \<equiv> CHR 0x0D"
abbreviation DQUOTE :: char where "DQUOTE \<equiv> CHR 0x22"

text \<open>
  \<open>str.isspace\<close> on one character, which is also what \<open>str.strip()\<close> removes and what
  \<open>\s\<close> matches in a \<open>str\<close> pattern: the code points 9 to 13, 28 to 32, 133 and 160.
\<close>

definition isspace :: "char \<Rightarrow> bool" where
  "isspace c \<longleftrightarrow>
     c = CHR 0x09 \<or> c = CHR 0x0A \<or> c = CHR 0x0B \<or> c = CHR 0x0C \<or> c = CHR 0x0D \<or>
     c = CHR 0x1C \<or> c = CHR 0x1D \<or> c = CHR 0x1E \<or> c = CHR 0x1F \<or> c = CHR 0x20 \<or>
     c = CHR 0x85 \<or> c = CHR 0xA0"

definition strip :: "string \<Rightarrow> string" where
  "strip s = rev (dropWhile isspace (rev (dropWhile isspace s)))"

text \<open>
  \<open>int(s)\<close> for a \<open>str\<close>, base 10. Leading and trailing whitespace is skipped, where
  whitespace is 9 to 13 and 32 together with the non-ASCII spaces 133 and 160 (the code
  points 28 to 31 are \<^emph>\<open>not\<close> skipped); then an optional sign; then decimal digits
  with single underscores allowed between digits. More than 4300 digits raise
  \<open>ValueError\<close> as every other malformed input does.
\<close>

definition int_space :: "char \<Rightarrow> bool" where
  "int_space c \<longleftrightarrow>
     c = CHR 0x09 \<or> c = CHR 0x0A \<or> c = CHR 0x0B \<or> c = CHR 0x0C \<or> c = CHR 0x0D \<or>
     c = CHR 0x20 \<or> c = CHR 0x85 \<or> c = CHR 0xA0"

definition digit_val :: "char \<Rightarrow> nat option" where
  "digit_val c = map_of (zip ''0123456789'' [0, 1, 2, 3, 4, 5, 6, 7, 8, 9]) c"

definition digit_or_underscore :: "char \<Rightarrow> bool" where
  "digit_or_underscore c \<longleftrightarrow> c = CHR ''_'' \<or> digit_val c \<noteq> None"

text \<open>
  The digit scan: \<open>prev\<close> says that the previous character was a digit, \<open>acc\<close> is the
  value so far and \<open>n\<close> the number of digits seen. An underscore must follow a digit and
  must be followed by one.
\<close>

fun scan_digits :: "bool \<Rightarrow> nat \<Rightarrow> nat \<Rightarrow> string \<Rightarrow> (nat \<times> nat) option" where
  "scan_digits prev acc n [] = (if prev then Some (acc, n) else None)"
| "scan_digits prev acc n (c # cs) =
     (if c = CHR ''_'' then (if prev then scan_digits False acc n cs else None)
      else case digit_val c of
             None \<Rightarrow> None
           | Some d \<Rightarrow> scan_digits True (10 * acc + d) (Suc n) cs)"

definition max_str_digits :: nat where
  "max_str_digits = 4300"

definition py_int :: "string \<Rightarrow> py_error + int" where
  "py_int s =
     (let t = dropWhile int_space s;
          neg = (t \<noteq> [] \<and> hd t = CHR ''-'');
          u = (if t \<noteq> [] \<and> (hd t = CHR ''+'' \<or> hd t = CHR ''-'') then tl t else t);
          body = takeWhile digit_or_underscore u;
          rest = dropWhile digit_or_underscore u
      in if dropWhile int_space rest \<noteq> [] then Inl ValueError
         else case scan_digits False 0 0 body of
                None \<Rightarrow> Inl ValueError
              | Some (v, n) \<Rightarrow>
                  if max_str_digits < n then Inl ValueError
                  else Inr (if neg then - int v else int v))"

text \<open>\<open>str(n)\<close> for an \<open>int\<close>: decimal digits, with a minus sign when negative.\<close>

fun str_nat :: "nat \<Rightarrow> string" where
  "str_nat n =
     (if n < 10 then [''0123456789'' ! n]
      else str_nat (n div 10) @ [''0123456789'' ! (n mod 10)])"

definition py_str :: "int \<Rightarrow> string" where
  "py_str i = (if i < 0 then CHR ''-'' # str_nat (nat (- i)) else str_nat (nat i))"

section \<open>The email pattern\<close>

text \<open>
  Regular expressions with character classes as predicates, matched by derivatives.
  \<open>Plus r\<close> is \<open>r+\<close>.
\<close>

datatype regex =
    Nothing
  | Eps
  | Atom "char \<Rightarrow> bool"
  | Seq regex regex
  | Alt regex regex
  | Star regex

definition Plus :: "regex \<Rightarrow> regex" where
  "Plus r = Seq r (Star r)"

fun nullable :: "regex \<Rightarrow> bool" where
  "nullable Nothing = False"
| "nullable Eps = True"
| "nullable (Atom p) = False"
| "nullable (Seq r s) = (nullable r \<and> nullable s)"
| "nullable (Alt r s) = (nullable r \<or> nullable s)"
| "nullable (Star r) = True"

fun deriv :: "char \<Rightarrow> regex \<Rightarrow> regex" where
  "deriv c Nothing = Nothing"
| "deriv c Eps = Nothing"
| "deriv c (Atom p) = (if p c then Eps else Nothing)"
| "deriv c (Seq r s) =
     (if nullable r then Alt (Seq (deriv c r) s) (deriv c s) else Seq (deriv c r) s)"
| "deriv c (Alt r s) = Alt (deriv c r) (deriv c s)"
| "deriv c (Star r) = Seq (deriv c r) (Star r)"

fun fullmatch :: "regex \<Rightarrow> string \<Rightarrow> bool" where
  "fullmatch r [] = nullable r"
| "fullmatch r (c # cs) = fullmatch (deriv c r) cs"

text \<open>
  \<open>re.match("^" + r + "$", s)\<close> without flags: \<open>^\<close> is the start of the string and
  \<open>$\<close> is the end of the string or the position just before a newline that ends it.
\<close>

definition re_match_anchored :: "regex \<Rightarrow> string \<Rightarrow> bool" where
  "re_match_anchored r s \<longleftrightarrow>
     fullmatch r s \<or> (s \<noteq> [] \<and> last s = LF \<and> fullmatch r (butlast s))"

text \<open>The class \<open>[^@\s]\<close>.\<close>

definition not_at_or_space :: "char \<Rightarrow> bool" where
  "not_at_or_space c \<longleftrightarrow> c \<noteq> CHR ''@'' \<and> \<not> isspace c"

text \<open>\<open>email_pattern = r"^[^@\s]+@[^@\s]+\.[^@\s]+$"\<close>, without its two anchors.\<close>

definition email_pattern :: regex where
  "email_pattern =
     Seq (Plus (Atom not_at_or_space))
       (Seq (Atom (\<lambda>c. c = CHR ''@''))
         (Seq (Plus (Atom not_at_or_space))
           (Seq (Atom (\<lambda>c. c = CHR ''.''))
             (Plus (Atom not_at_or_space)))))"

section \<open>\<open>validate_form\<close>\<close>

text \<open>
  \<open>request.form\<close> is read through \<open>form.get\<close> only, so it is a partial map from field
  names to the submitted string. \<open>errors\<close> and the cleaned dictionary are maps from
  field names to strings.
\<close>

type_synonym form = "string \<rightharpoonup> string"

definition form_get :: "form \<Rightarrow> string \<Rightarrow> string \<Rightarrow> string" where
  "form_get form k dflt = (case form k of None \<Rightarrow> dflt | Some v \<Rightarrow> v)"

text \<open>
  The \<open>try\<close> block: \<open>int(guests)\<close>, then the range check that raises \<open>ValueError\<close>
  itself.
\<close>

definition guests_try :: "string \<Rightarrow> py_error + int" where
  "guests_try guests =
     (case py_int guests of
        Inl e \<Rightarrow> Inl e
      | Inr guests_val \<Rightarrow> if guests_val < 0 \<or> guests_val > 5 then Inl ValueError else Inr guests_val)"

definition validate_form :: "form \<Rightarrow> py_error + ((string \<rightharpoonup> string) \<times> (string \<rightharpoonup> string))" where
  "validate_form form =
     (let errors0 = Map.empty;
          name = strip (form_get form ''name'' '''');
          email = strip (form_get form ''email'' '''');
          attending = form ''attending'';
          guests = form_get form ''guests'' ''0'';
          errors1 = (if length name < 2
                     then errors0(''name'' \<mapsto> ''Please enter your full name.'') else errors0);
          errors2 = (if \<not> re_match_anchored email_pattern email
                     then errors1(''email'' \<mapsto> ''Enter a valid email address.'') else errors1);
          errors3 = (if attending \<noteq> Some ''yes'' \<and> attending \<noteq> Some ''no''
                     then errors2(''attending'' \<mapsto> ''Let us know if you can attend.'')
                     else errors2);
          finish = (\<lambda>errors guests_val.
                      Inr (errors,
                           [''name'' \<mapsto> name,
                            ''email'' \<mapsto> email,
                            ''attending'' \<mapsto>
                               (case attending of
                                  None \<Rightarrow> ''no''
                                | Some a \<Rightarrow> if a = [] then ''no'' else a),
                            ''guests'' \<mapsto> py_str guests_val,
                            ''note'' \<mapsto> strip (form_get form ''note'' '''')]))
      in case guests_try guests of
           Inr guests_val \<Rightarrow> finish errors3 guests_val
         | Inl ValueError \<Rightarrow>
             finish (errors3(''guests'' \<mapsto> ''The guest count must be between 0 and 5.'')) 0
         | Inl e \<Rightarrow> Inl e)"

section \<open>The \<open>csv\<close> module, as \<open>app.py\<close> uses it\<close>

text \<open>
  The dialect is the default one (\<open>excel\<close>): delimiter \<open>,\<close>, quote character \<open>"\<close>,
  doubled quotes, minimal quoting, line terminator \<open>\r\n\<close>, no escape character, not
  strict.
\<close>

definition FIELDNAMES :: "string list" where
  "FIELDNAMES = [''timestamp'', ''name'', ''email'', ''attending'', ''guests'', ''note'']"

subsection \<open>Writing\<close>

text \<open>
  A field is quoted when it holds the delimiter, the quote character or a character of
  the line terminator; inside the quotes every quote character is doubled.
\<close>

definition needs_quote :: "char \<Rightarrow> bool" where
  "needs_quote c \<longleftrightarrow> c = CHR '','' \<or> c = DQUOTE \<or> c = CR \<or> c = LF"

definition double_quotes :: "string \<Rightarrow> string" where
  "double_quotes f = concat (map (\<lambda>c. if c = DQUOTE then [DQUOTE, DQUOTE] else [c]) f)"

definition csv_field :: "string \<Rightarrow> string" where
  "csv_field f =
     (if list_ex needs_quote f then [DQUOTE] @ double_quotes f @ [DQUOTE] else f)"

fun join_fields :: "string list \<Rightarrow> string" where
  "join_fields [] = []"
| "join_fields [f] = f"
| "join_fields (f # g # fs) = f @ CHR '','' # join_fields (g # fs)"

text \<open>
  \<open>writer.writerow\<close> on a list of strings gives this text; a row that is one empty
  field is written as a pair of quotes.
\<close>

definition csv_writerow :: "string list \<Rightarrow> string" where
  "csv_writerow fs =
     (if fs = [[]] then [DQUOTE, DQUOTE] else join_fields (map csv_field fs)) @ [CR, LF]"

text \<open>
  \<open>DictWriter(f, FIELDNAMES).writerow(row)\<close>: a key outside the field names raises
  \<open>ValueError\<close> before anything is written; a missing key is written as the empty
  string. The row is a dictionary from field names to strings.
\<close>

type_synonym rsvp = "string \<rightharpoonup> string"

definition dict_to_list :: "rsvp \<Rightarrow> py_error + string list" where
  "dict_to_list row =
     (if dom row - set FIELDNAMES \<noteq> {} then Inl ValueError
      else Inr (map (\<lambda>k. case row k of None \<Rightarrow> [] | Some v \<Rightarrow> v) FIELDNAMES))"

subsection \<open>Reading\<close>

text \<open>
  A file opened for reading in text mode with the default \<open>newline=None\<close> translates
  every \<open>\r\n\<close> and every remaining \<open>\r\<close> to \<open>\n\<close>.
\<close>

fun universal_newlines :: "string \<Rightarrow> string" where
  "universal_newlines [] = []"
| "universal_newlines [c] = [if c = CR then LF else c]"
| "universal_newlines (c # d # cs) =
     (if c = CR \<and> d = LF then LF # universal_newlines cs
      else if c = CR then LF # universal_newlines (d # cs)
      else c # universal_newlines (d # cs))"

text \<open>
  Iterating over the file gives its lines, each with its \<open>\n\<close>; the last line may lack
  one. \<open>cur\<close> is the line read so far.
\<close>

fun readlines :: "string \<Rightarrow> string \<Rightarrow> string list" where
  "readlines cur [] = (if cur = [] then [] else [cur])"
| "readlines cur (c # cs) =
     (if c = LF then (cur @ [c]) # readlines [] cs else readlines (cur @ [c]) cs)"

text \<open>
  The reader's state machine. The states that follow an escape character are left out:
  the dialect has none. \<open>field\<close> is the reader's buffer for the
  field under way and \<open>saved_fields\<close> its list \<open>fields\<close> of the fields already read.
\<close>

datatype parser_state =
    START_RECORD
  | START_FIELD
  | IN_FIELD
  | IN_QUOTED_FIELD
  | QUOTE_IN_QUOTED_FIELD
  | EAT_CRNL

record reader =
  state :: parser_state
  field :: string
  saved_fields :: "string list"

definition field_limit :: nat where
  "field_limit = 131072"

definition parse_reset :: reader where
  "parse_reset = \<lparr>state = START_RECORD, field = [], saved_fields = []\<rparr>"

definition parse_save_field :: "reader \<Rightarrow> reader" where
  "parse_save_field r = r\<lparr>saved_fields := saved_fields r @ [field r], field := []\<rparr>"

definition parse_add_char :: "reader \<Rightarrow> char \<Rightarrow> py_error + reader" where
  "parse_add_char r c =
     (if field_limit \<le> length (field r) then Inl CsvError
      else Inr (r\<lparr>field := field r @ [c]\<rparr>))"

definition set_state :: "parser_state \<Rightarrow> reader \<Rightarrow> py_error + reader" where
  "set_state st r = Inr (r\<lparr>state := st\<rparr>)"

definition then_state :: "py_error + reader \<Rightarrow> parser_state \<Rightarrow> py_error + reader" where
  "then_state res st = (case res of Inl e \<Rightarrow> Inl e | Inr r \<Rightarrow> set_state st r)"

text \<open>One step on a character of the line (\<open>Some c\<close>) or on the end of the line (\<open>None\<close>).\<close>

fun parse_process_char :: "reader \<Rightarrow> char option \<Rightarrow> py_error + reader" where
  "parse_process_char r None =
     (case state r of
        START_RECORD \<Rightarrow> Inr r
      | START_FIELD \<Rightarrow> set_state START_RECORD (parse_save_field r)
      | IN_FIELD \<Rightarrow> set_state START_RECORD (parse_save_field r)
      | IN_QUOTED_FIELD \<Rightarrow> Inr r
      | QUOTE_IN_QUOTED_FIELD \<Rightarrow> set_state START_RECORD (parse_save_field r)
      | EAT_CRNL \<Rightarrow> set_state START_RECORD r)"
| "parse_process_char r (Some c) =
     (case state r of
        START_RECORD \<Rightarrow>
          if c = LF \<or> c = CR then set_state EAT_CRNL r
          else if c = DQUOTE then set_state IN_QUOTED_FIELD r
          else if c = CHR '','' then set_state START_FIELD (parse_save_field r)
          else then_state (parse_add_char r c) IN_FIELD
      | START_FIELD \<Rightarrow>
          if c = LF \<or> c = CR then set_state EAT_CRNL (parse_save_field r)
          else if c = DQUOTE then set_state IN_QUOTED_FIELD r
          else if c = CHR '','' then set_state START_FIELD (parse_save_field r)
          else then_state (parse_add_char r c) IN_FIELD
      | IN_FIELD \<Rightarrow>
          if c = LF \<or> c = CR then set_state EAT_CRNL (parse_save_field r)
          else if c = CHR '','' then set_state START_FIELD (parse_save_field r)
          else parse_add_char r c
      | IN_QUOTED_FIELD \<Rightarrow>
          if c = DQUOTE then set_state QUOTE_IN_QUOTED_FIELD r
          else parse_add_char r c
      | QUOTE_IN_QUOTED_FIELD \<Rightarrow>
          if c = DQUOTE then then_state (parse_add_char r c) IN_QUOTED_FIELD
          else if c = CHR '','' then set_state START_FIELD (parse_save_field r)
          else if c = LF \<or> c = CR then set_state EAT_CRNL (parse_save_field r)
          else then_state (parse_add_char r c) IN_FIELD
      | EAT_CRNL \<Rightarrow>
          if c = LF \<or> c = CR then Inr r else Inl CsvError)"

text \<open>A whole line: its characters in order, then the end of the line.\<close>

fun parse_line :: "reader \<Rightarrow> string \<Rightarrow> py_error + reader" where
  "parse_line r [] = parse_process_char r None"
| "parse_line r (c # cs) =
     (case parse_process_char r (Some c) of
        Inl e \<Rightarrow> Inl e
      | Inr r' \<Rightarrow> parse_line r' cs)"

text \<open>
  \<open>list(reader)\<close>: each record takes lines until the parser is back at the start of a
  record. When the lines run out inside a record, what was read is returned as the last
  record if a field is under way or a quote is open.
\<close>

fun reader_records :: "reader \<Rightarrow> string list \<Rightarrow> py_error + string list list" where
  "reader_records r [] =
     (if field r \<noteq> [] \<or> state r = IN_QUOTED_FIELD
      then Inr [saved_fields (parse_save_field r)] else Inr [])"
| "reader_records r (l # ls) =
     (case parse_line r l of
        Inl e \<Rightarrow> Inl e
      | Inr r' \<Rightarrow>
          if state r' = START_RECORD
          then (case reader_records parse_reset ls of
                  Inl e \<Rightarrow> Inl e
                | Inr recs \<Rightarrow> Inr (saved_fields r' # recs))
          else reader_records r' ls)"

text \<open>
  A row of \<open>DictReader\<close>: under each field name a string, or \<open>None\<close> where the record
  was too short (\<open>named\<close>); the fields beyond the header, when there are any, under the
  key \<open>None\<close> (\<open>extra\<close>).
\<close>

record dictrow =
  named :: "string \<rightharpoonup> string option"
  extra :: "string list option"

definition make_row :: "string list \<Rightarrow> string list \<Rightarrow> dictrow" where
  "make_row fieldnames row =
     (let d = Map.empty(fieldnames [\<mapsto>] map Some row);
          lf = length fieldnames;
          lr = length row
      in if lf < lr then \<lparr>named = d, extra = Some (drop lf row)\<rparr>
         else if lr < lf
         then \<lparr>named = d(drop lr fieldnames [\<mapsto>] replicate (lf - lr) None), extra = None\<rparr>
         else \<lparr>named = d, extra = None\<rparr>)"

text \<open>
  \<open>list(DictReader(f))\<close>: the first record is the header, whatever it holds; empty
  records after it are skipped.
\<close>

definition dict_reader :: "string list \<Rightarrow> py_error + dictrow list" where
  "dict_reader file_lines =
     (case reader_records parse_reset file_lines of
        Inl e \<Rightarrow> Inl e
      | Inr [] \<Rightarrow> Inr []
      | Inr (fieldnames # recs) \<Rightarrow>
          Inr (map (make_row fieldnames) (filter (\<lambda>row. row \<noteq> []) recs)))"

section \<open>The record store\<close>

text \<open>
  The state is the file \<open>rsvps.csv\<close>: \<open>None\<close> when it does not exist, its text
  otherwise. Failures of the file system itself (permissions, a full disk) are not
  modelled. Every operation returns its result and the file it leaves.
\<close>

type_synonym store = "string option"

definition ensure_csv :: "store \<Rightarrow> store" where
  "ensure_csv st = (case st of None \<Rightarrow> Some (csv_writerow FIELDNAMES) | Some text \<Rightarrow> Some text)"

definition read_rsvps :: "store \<Rightarrow> (py_error + dictrow list) \<times> store" where
  "read_rsvps st =
     (let st1 = ensure_csv st
      in case st1 of
           None \<Rightarrow> (Inl FileNotFoundError, st1)
         | Some text \<Rightarrow> (dict_reader (readlines [] (universal_newlines text)), st1))"

text \<open>Opening with mode \<open>"a"\<close> creates a missing file; \<open>newline=""\<close> writes the text as it is.\<close>

definition write_rsvp :: "rsvp \<Rightarrow> store \<Rightarrow> (py_error + unit) \<times> store" where
  "write_rsvp row st =
     (let st1 = ensure_csv st;
          text = (case st1 of None \<Rightarrow> [] | Some t \<Rightarrow> t)
      in case dict_to_list row of
           Inl e \<Rightarrow> (Inl e, Some text)
         | Inr fs \<Rightarrow> (Inr (), Some (text @ csv_writerow fs)))"

section \<open>The views over the store\<close>

text \<open>\<open>r[k]\<close> on a row of \<open>DictReader\<close>, for a field name \<open>k\<close>.\<close>

definition getitem :: "dictrow \<Rightarrow> string \<Rightarrow> py_error + string option" where
  "getitem r k = (case named r k of None \<Rightarrow> Inl KeyError | Some v \<Rightarrow> Inr v)"

text \<open>
  \<open>rows.sort(key=lambda r: r["timestamp"], reverse=True)\<close>. The keys are computed
  first, one per row. With two rows or more the keys are compared, and a key \<open>None\<close>
  cannot be compared: \<open>TypeError\<close>. Strings compare by code points. \<open>list.sort\<close> is
  stable, and \<open>reverse=True\<close> reverses the list, sorts it and reverses the result.
\<close>

fun sort_keys :: "dictrow list \<Rightarrow> py_error + string option list" where
  "sort_keys [] = Inr []"
| "sort_keys (r # rows) =
     (case getitem r ''timestamp'' of
        Inl e \<Rightarrow> Inl e
      | Inr k \<Rightarrow> (case sort_keys rows of Inl e \<Rightarrow> Inl e | Inr ks \<Rightarrow> Inr (k # ks)))"

definition timestamp_key :: "dictrow \<Rightarrow> string" where
  "timestamp_key r = (case named r ''timestamp'' of Some (Some t) \<Rightarrow> t | _ \<Rightarrow> [])"

definition sort_by_timestamp_reverse :: "dictrow list \<Rightarrow> py_error + dictrow list" where
  "sort_by_timestamp_reverse rows =
     (case sort_keys rows of
        Inl e \<Rightarrow> Inl e
      | Inr ks \<Rightarrow>
          if 2 \<le> length rows \<and> list_ex (\<lambda>k. k = None) ks then Inl TypeError
          else Inr (rev (sort_key timestamp_key (rev rows))))"

text \<open>\<open>sum(1 for r in rows if r["attending"] == v)\<close>, with the running sum \<open>acc\<close>.\<close>

fun sum_attending :: "string \<Rightarrow> int \<Rightarrow> dictrow list \<Rightarrow> py_error + int" where
  "sum_attending v acc [] = Inr acc"
| "sum_attending v acc (r # rows) =
     (case getitem r ''attending'' of
        Inl e \<Rightarrow> Inl e
      | Inr a \<Rightarrow> sum_attending v (if a = Some v then acc + 1 else acc) rows)"

text \<open>
  \<open>sum(int(r["guests"]) for r in rows if r["attending"] == "yes")\<close>; \<open>int(None)\<close> is a
  \<open>TypeError\<close>.
\<close>

fun sum_guests :: "int \<Rightarrow> dictrow list \<Rightarrow> py_error + int" where
  "sum_guests acc [] = Inr acc"
| "sum_guests acc (r # rows) =
     (case getitem r ''attending'' of
        Inl e \<Rightarrow> Inl e
      | Inr a \<Rightarrow>
          if a = Some ''yes''
          then (case getitem r ''guests'' of
                  Inl e \<Rightarrow> Inl e
                | Inr None \<Rightarrow> Inl TypeError
                | Inr (Some g) \<Rightarrow>
                    (case py_int g of
                       Inl e \<Rightarrow> Inl e
                     | Inr n \<Rightarrow> sum_guests (acc + n) rows))
          else sum_guests acc rows)"

text \<open>
  The body of \<open>list_rsvps\<close> after the read: what the template \<open>rsvps.html\<close> is given,
  the sorted rows and the dictionary \<open>totals\<close>.
\<close>

definition rsvps_page :: "dictrow list \<Rightarrow> py_error + (dictrow list \<times> (string \<rightharpoonup> int))" where
  "rsvps_page rows =
     (if rows = [] then Inl (HTTPException 404 ''No RSVPs recorded yet.'')
      else case sort_by_timestamp_reverse rows of
             Inl e \<Rightarrow> Inl e
           | Inr sorted_rows \<Rightarrow>
               (case sum_attending ''yes'' 0 sorted_rows of
                  Inl e \<Rightarrow> Inl e
                | Inr y \<Rightarrow>
                    (case sum_attending ''no'' 0 sorted_rows of
                       Inl e \<Rightarrow> Inl e
                     | Inr n \<Rightarrow>
                         (case sum_guests 0 sorted_rows of
                            Inl e \<Rightarrow> Inl e
                          | Inr g \<Rightarrow>
                              Inr (sorted_rows,
                                   [''yes'' \<mapsto> y, ''no'' \<mapsto> n, ''guests'' \<mapsto> g])))))"

definition list_rsvps :: "store \<Rightarrow> (py_error + (dictrow list \<times> (string \<rightharpoonup> int))) \<times> store" where
  "list_rsvps st =
     (case read_rsvps st of
        (Inl e, st1) \<Rightarrow> (Inl e, st1)
      | (Inr rows, st1) \<Rightarrow> (rsvps_page rows, st1))"

text \<open>
  \<open>download_rsvps\<close>: the download name and the text of the file. \<open>stamp\<close> is the clock
  reading \<open>datetime.utcnow().strftime('%Y%m%d%H%M%S')\<close>.
\<close>

definition download_rsvps :: "string \<Rightarrow> store \<Rightarrow> (py_error + (string \<times> string)) \<times> store" where
  "download_rsvps stamp st =
     (case read_rsvps st of
        (Inl e, st1) \<Rightarrow> (Inl e, st1)
      | (Inr rows, st1) \<Rightarrow>
          if rows = [] then (Inl (HTTPException 404 ''No RSVPs recorded yet.''), st1)
          else (case st1 of
                  None \<Rightarrow> (Inl FileNotFoundError, st1)
                | Some text \<Rightarrow> (Inr (''rsvps_'' @ stamp @ ''.csv'', text), st1)))"

section \<open>The specification's wording\<close>

text \<open>
  The shape of an email address in the specification's words, to be compared with the
  pattern of the code: one or more characters that are neither \<open>@\<close> nor whitespace,
  then \<open>@\<close>, then one or more such characters, then a dot, then one or more such
  characters, from start to end.
\<close>

definition email_shape :: "string \<Rightarrow> bool" where
  "email_shape s \<longleftrightarrow>
     (\<exists>l d t. s = l @ ''@'' @ d @ ''.'' @ t \<and> l \<noteq> [] \<and> d \<noteq> [] \<and> t \<noteq> [] \<and>
        list_all not_at_or_space l \<and> list_all not_at_or_space d \<and>
        list_all not_at_or_space t)"

text \<open>
  A complete record, as the data model has it for every persisted record: each of the
  six fields is there with a string, nothing else is, and the guests field reads as an
  integer.
\<close>

definition complete_record :: "dictrow \<Rightarrow> bool" where
  "complete_record r \<longleftrightarrow>
     extra r = None \<and> dom (named r) = set FIELDNAMES \<and>
     list_all (\<lambda>k. named r k \<noteq> Some None) FIELDNAMES \<and>
     (case named r ''guests'' of
        Some (Some g) \<Rightarrow> (case py_int g of Inl e \<Rightarrow> False | Inr n \<Rightarrow> True)
      | _ \<Rightarrow> False)"

text \<open>Whether a record's attending field is the string \<open>v\<close>.\<close>

definition attending_is :: "string \<Rightarrow> dictrow \<Rightarrow> bool" where
  "attending_is v r \<longleftrightarrow> named r ''attending'' = Some (Some v)"

text \<open>
  The guest count of a record: the integer its guests field reads as (0 for a field
  that is missing or does not read as an integer).
\<close>

definition guests_of :: "dictrow \<Rightarrow> int" where
  "guests_of r =
     (case named r ''guests'' of
        Some (Some g) \<Rightarrow> (case py_int g of Inl e \<Rightarrow> 0 | Inr n \<Rightarrow> n)
      | _ \<Rightarrow> 0)"

section \<open>The parser within a line\<close>

text \<open>
  The characters of a line without the end of the line: \<open>parse_line\<close> is this,
  followed by the step for the end of the line.
\<close>

fun parse_chars :: "reader \<Rightarrow> string \<Rightarrow> py_error + reader" where
  "parse_chars r [] = Inr r"
| "parse_chars r (c # cs) =
     (case parse_process_char r (Some c) of
        Inl e \<Rightarrow> Inl e
      | Inr r' \<Rightarrow> parse_chars r' cs)"

section \<open>Properties of \<open>validate_form\<close>\<close>

subsection \<open>The only exception of the \<open>try\<close> block is the one it catches\<close>

lemma parse_shape_error:
  "(if A then Inl ValueError
    else case X of
           None \<Rightarrow> Inl ValueError
         | Some (v, n) \<Rightarrow> if B n then Inl ValueError else Inr (f v)) = Inl e
   \<Longrightarrow> e = ValueError"
  by (simp split: if_split_asm option.split_asm prod.split_asm)

lemma py_int_error: "py_int s = Inl e \<Longrightarrow> e = ValueError"
  unfolding py_int_def Let_def by (rule parse_shape_error)

lemma guests_try_error: "guests_try g = Inl e \<Longrightarrow> e = ValueError"
  by (auto simp: guests_try_def split: sum.splits if_splits dest: py_int_error)

lemma guests_try_Inr: "guests_try g = Inr v \<longleftrightarrow> py_int g = Inr v \<and> 0 \<le> v \<and> v \<le> 5"
  by (auto simp: guests_try_def split: sum.splits if_splits)

lemma guests_try_cases:
  obtains (rejected) "guests_try g = Inl ValueError"
      "\<And>v. py_int g = Inr v \<Longrightarrow> \<not> (0 \<le> v \<and> v \<le> 5)"
    | (accepted) v where "guests_try g = Inr v" "py_int g = Inr v" "0 \<le> v" "v \<le> 5"
proof (cases "guests_try g")
  case (Inl e)
  then have "guests_try g = Inl ValueError" using guests_try_error by blast
  moreover from Inl have "\<And>v. py_int g = Inr v \<Longrightarrow> \<not> (0 \<le> v \<and> v \<le> 5)"
    by (auto simp: guests_try_def split: sum.splits if_splits)
  ultimately show ?thesis by (rule rejected)
next
  case (Inr v)
  then show ?thesis using accepted by (simp add: guests_try_Inr)
qed

lemmas eval_strip = strip_def isspace_def

lemmas eval_py_int =
  py_int_def int_space_def digit_or_underscore_def digit_val_def max_str_digits_def

lemmas eval_email =
  re_match_anchored_def email_pattern_def Plus_def not_at_or_space_def isspace_def

subsection \<open>What \<open>validate_form\<close> returns\<close>

text \<open>
  \<open>validate_form\<close> always returns. The cleaned dictionary is written out in full; of
  the errors dictionary the lemma gives the value under each of the four keys and says
  that there is no other key.
\<close>

lemma validate_form_result:
  "\<exists>errors. validate_form form =
       Inr (errors,
            [''name'' \<mapsto> strip (form_get form ''name'' ''''),
             ''email'' \<mapsto> strip (form_get form ''email'' ''''),
             ''attending'' \<mapsto>
                (case form ''attending'' of None \<Rightarrow> ''no'' | Some a \<Rightarrow> if a = [] then ''no'' else a),
             ''guests'' \<mapsto>
                py_str (case guests_try (form_get form ''guests'' ''0'') of Inl e \<Rightarrow> 0 | Inr v \<Rightarrow> v),
             ''note'' \<mapsto> strip (form_get form ''note'' '''')]) \<and>
     errors ''name'' =
       (if length (strip (form_get form ''name'' '''')) < 2
        then Some ''Please enter your full name.'' else None) \<and>
     errors ''email'' =
       (if re_match_anchored email_pattern (strip (form_get form ''email'' ''''))
        then None else Some ''Enter a valid email address.'') \<and>
     errors ''attending'' =
       (if form ''attending'' = Some ''yes'' \<or> form ''attending'' = Some ''no''
        then None else Some ''Let us know if you can attend.'') \<and>
     errors ''guests'' =
       (case guests_try (form_get form ''guests'' ''0'') of
          Inl e \<Rightarrow> Some ''The guest count must be between 0 and 5.''
        | Inr v \<Rightarrow> None) \<and>
     dom errors \<subseteq> {''name'', ''email'', ''attending'', ''guests''}"
proof -
  let ?g = "form_get form ''guests'' ''0''"
  let ?msg = "''The guest count must be between 0 and 5.''"
  let ?e1 = "if length (strip (form_get form ''name'' '''')) < 2
             then Map.empty(''name'' \<mapsto> ''Please enter your full name.'') else Map.empty"
  let ?e2 = "if \<not> re_match_anchored email_pattern (strip (form_get form ''email'' ''''))
             then ?e1(''email'' \<mapsto> ''Enter a valid email address.'') else ?e1"
  let ?e3 = "if form ''attending'' \<noteq> Some ''yes'' \<and> form ''attending'' \<noteq> Some ''no''
             then ?e2(''attending'' \<mapsto> ''Let us know if you can attend.'') else ?e2"
  have name3: "?e3 ''name'' =
      (if length (strip (form_get form ''name'' '''')) < 2
       then Some ''Please enter your full name.'' else None)"
    by simp
  have email3: "?e3 ''email'' =
      (if re_match_anchored email_pattern (strip (form_get form ''email'' ''''))
       then None else Some ''Enter a valid email address.'')"
    by simp
  have att3: "?e3 ''attending'' =
      (if form ''attending'' = Some ''yes'' \<or> form ''attending'' = Some ''no''
       then None else Some ''Let us know if you can attend.'')"
    by simp
  have guests3: "?e3 ''guests'' = None"
    by simp
  have dom3: "dom ?e3 \<subseteq> {''name'', ''email'', ''attending''}"
    by (simp add: subset_iff dom_def)
  show ?thesis
  proof (cases ?g rule: guests_try_cases)
    case rejected
    have n: "(?e3(''guests'' \<mapsto> ?msg)) ''name'' = ?e3 ''name''"
      and e: "(?e3(''guests'' \<mapsto> ?msg)) ''email'' = ?e3 ''email''"
      and a: "(?e3(''guests'' \<mapsto> ?msg)) ''attending'' = ?e3 ''attending''"
      and gg: "(?e3(''guests'' \<mapsto> ?msg)) ''guests'' = Some ?msg"
      by (simp_all only: fun_upd_apply list.inject char.inject simp_thms if_False if_True)
    have d: "dom (?e3(''guests'' \<mapsto> ?msg)) \<subseteq> {''name'', ''email'', ''attending'', ''guests''}"
      using dom3 by (simp only: dom_fun_upd option.simps if_False) blast
    show ?thesis
      apply (rule exI [of _ "?e3(''guests'' \<mapsto> ?msg)"])
      apply (intro conjI)
           apply (simp only: validate_form_def Let_def rejected(1) sum.case py_error.case)
          apply (simp only: n name3)
         apply (simp only: e email3)
        apply (simp only: a att3)
       apply (simp only: gg rejected(1) sum.case)
      apply (rule d)
      done
  next
    case (accepted v)
    have d: "dom ?e3 \<subseteq> {''name'', ''email'', ''attending'', ''guests''}"
      using dom3 by blast
    show ?thesis
      apply (rule exI [of _ ?e3])
      apply (intro conjI)
           apply (simp only: validate_form_def Let_def accepted(1) sum.case)
          apply (rule name3)
         apply (rule email3)
        apply (rule att3)
       apply (simp only: guests3 accepted(1) sum.case)
      apply (rule d)
      done
  qed
qed

subsection \<open>The errors dictionary\<close>

text \<open>
  C1. For every submitted form, \<open>validate_form\<close> returns, and its errors dictionary
  has exactly the keys of the violated rules, each with its fixed message:
  \<open>name\<close> if and only if the trimmed name is shorter than 2, \<open>email\<close> if
  and only if the trimmed email does not match the pattern, \<open>attending\<close> if and only
  if the raw value is not exactly \<open>yes\<close> or \<open>no\<close> (an absent field included),
  \<open>guests\<close> if and only if the guests value (\<open>"0"\<close> when the field is absent) does
  not parse as an integer or parses outside 0 to 5. Each key depends on its own rule
  only, and no other key is ever set.
\<close>

theorem validate_form_errors:
  "\<exists>errors cleaned. validate_form form = Inr (errors, cleaned) \<and>
     errors ''name'' =
       (if length (strip (form_get form ''name'' '''')) < 2
        then Some ''Please enter your full name.'' else None) \<and>
     errors ''email'' =
       (if re_match_anchored email_pattern (strip (form_get form ''email'' ''''))
        then None else Some ''Enter a valid email address.'') \<and>
     errors ''attending'' =
       (if form ''attending'' = Some ''yes'' \<or> form ''attending'' = Some ''no''
        then None else Some ''Let us know if you can attend.'') \<and>
     errors ''guests'' =
       (case py_int (form_get form ''guests'' ''0'') of
          Inl e \<Rightarrow> Some ''The guest count must be between 0 and 5.''
        | Inr v \<Rightarrow> if 0 \<le> v \<and> v \<le> 5 then None
                   else Some ''The guest count must be between 0 and 5.'') \<and>
     dom errors \<subseteq> {''name'', ''email'', ''attending'', ''guests''}"
proof -
  let ?g = "form_get form ''guests'' ''0''"
  let ?msg = "''The guest count must be between 0 and 5.''"
  have g: "(case guests_try ?g of Inl e \<Rightarrow> Some ?msg | Inr v \<Rightarrow> None) =
           (case py_int ?g of
              Inl e \<Rightarrow> Some ?msg
            | Inr v \<Rightarrow> if 0 \<le> v \<and> v \<le> 5 then None else Some ?msg)"
    by (simp add: guests_try_def split: sum.splits)
  from validate_form_result [of form] obtain errors cleaned where
    "validate_form form = Inr (errors, cleaned)"
    "errors ''name'' =
       (if length (strip (form_get form ''name'' '''')) < 2
        then Some ''Please enter your full name.'' else None)"
    "errors ''email'' =
       (if re_match_anchored email_pattern (strip (form_get form ''email'' ''''))
        then None else Some ''Enter a valid email address.'')"
    "errors ''attending'' =
       (if form ''attending'' = Some ''yes'' \<or> form ''attending'' = Some ''no''
        then None else Some ''Let us know if you can attend.'')"
    "errors ''guests'' = (case guests_try ?g of Inl e \<Rightarrow> Some ?msg | Inr v \<Rightarrow> None)"
    "dom errors \<subseteq> {''name'', ''email'', ''attending'', ''guests''}"
    by blast
  then show ?thesis
    unfolding g by blast
qed

theorem validate_form_errors_witness:
  "(\<exists>errors cleaned.
      validate_form [''name'' \<mapsto> ''Ada Lovelace'', ''email'' \<mapsto> ''ada@example.org'',
                     ''attending'' \<mapsto> ''yes'', ''guests'' \<mapsto> ''2''] = Inr (errors, cleaned) \<and>
      errors = Map.empty) \<and>
   (\<exists>errors cleaned.
      validate_form [''name'' \<mapsto> '' A '', ''email'' \<mapsto> ''ada@example.org'',
                     ''attending'' \<mapsto> ''no''] = Inr (errors, cleaned) \<and>
      errors = [''name'' \<mapsto> ''Please enter your full name.''])"
proof -
  let ?f1 = "[''name'' \<mapsto> ''Ada Lovelace'', ''email'' \<mapsto> ''ada@example.org'',
              ''attending'' \<mapsto> ''yes'', ''guests'' \<mapsto> ''2'']"
  let ?f2 = "[''name'' \<mapsto> '' A '', ''email'' \<mapsto> ''ada@example.org'',
              ''attending'' \<mapsto> ''no'']"
  have m: "re_match_anchored email_pattern ''ada@example.org''"
    by (simp add: eval_email)
  have i2: "py_int ''2'' = Inr 2" and i0: "py_int ''0'' = Inr 0"
    by (simp_all add: eval_py_int)
  from validate_form_errors [of ?f1] obtain errors cleaned where
    v: "validate_form ?f1 = Inr (errors, cleaned)" and
    k: "errors ''name'' = None" "errors ''email'' = None" "errors ''attending'' = None"
       "errors ''guests'' = None" and
    d: "dom errors \<subseteq> {''name'', ''email'', ''attending'', ''guests''}"
    by (simp add: form_get_def eval_strip m i2) blast
  have "errors = Map.empty"
  proof
    fix x show "errors x = None" using k d by (cases "x \<in> dom errors") auto
  qed
  with v have one:
    "\<exists>errors cleaned. validate_form ?f1 = Inr (errors, cleaned) \<and> errors = Map.empty"
    by blast
  from validate_form_errors [of ?f2] obtain errors2 cleaned2 where
    v2: "validate_form ?f2 = Inr (errors2, cleaned2)" and
    k2: "errors2 ''name'' = Some ''Please enter your full name.''" "errors2 ''email'' = None"
        "errors2 ''attending'' = None" "errors2 ''guests'' = None" and
    d2: "dom errors2 \<subseteq> {''name'', ''email'', ''attending'', ''guests''}"
    by (simp add: form_get_def eval_strip m i0) blast
  have "errors2 = [''name'' \<mapsto> ''Please enter your full name.'']"
  proof
    fix x show "errors2 x = [''name'' \<mapsto> ''Please enter your full name.''] x"
      using k2 d2 by (cases "x \<in> dom errors2") auto
  qed
  with v2 have two:
    "\<exists>errors cleaned. validate_form ?f2 = Inr (errors, cleaned) \<and>
       errors = [''name'' \<mapsto> ''Please enter your full name.'']"
    by blast
  from one two show ?thesis by (rule conjI)
qed

subsection \<open>The guest count\<close>

lemma py_str_digit:
  assumes "0 \<le> v" "v \<le> 5"
  shows "py_str v = [''012345'' ! nat v] \<and> py_int (py_str v) = Inr v"
proof -
  from assms have "v = 0 \<or> v = 1 \<or> v = 2 \<or> v = 3 \<or> v = 4 \<or> v = 5" by arith
  then show ?thesis
    by (elim disjE) (simp_all add: py_str_def eval_py_int)
qed

lemma validate_form_default_guests:
  assumes "form ''guests'' = None"
  shows "validate_form form = validate_form (form(''guests'' \<mapsto> ''0''))"
proof -
  have "form_get (form(''guests'' \<mapsto> ''0'')) ''name'' '''' = form_get form ''name'' ''''"
    "form_get (form(''guests'' \<mapsto> ''0'')) ''email'' '''' = form_get form ''email'' ''''"
    "form_get (form(''guests'' \<mapsto> ''0'')) ''note'' '''' = form_get form ''note'' ''''"
    "form_get (form(''guests'' \<mapsto> ''0'')) ''guests'' ''0'' = form_get form ''guests'' ''0''"
    "(form(''guests'' \<mapsto> ''0'')) ''attending'' = form ''attending''"
    using assms by (simp_all add: form_get_def)
  then show ?thesis
    by (simp only: validate_form_def)
qed

text \<open>
  C2. For every submitted form \<open>validate_form\<close> returns (no exception leaves it). An
  absent guests field is read as \<open>"0"\<close>: the result is the one for the form with
  \<open>guests = "0"\<close>. When the guests value does not parse as an integer, or parses
  outside 0 to 5, the error \<open>The guest count must be between 0 and 5.\<close> is recorded
  and the cleaned guest count is \<open>"0"\<close>. Otherwise no guests error is recorded and the
  cleaned guest count is the decimal string of the parsed integer, which \<open>int\<close> reads
  back as that integer.
\<close>

theorem validate_form_guests:
  "\<exists>errors cleaned. validate_form form = Inr (errors, cleaned) \<and>
     (case py_int (form_get form ''guests'' ''0'') of
        Inl e \<Rightarrow>
          errors ''guests'' = Some ''The guest count must be between 0 and 5.'' \<and>
          cleaned ''guests'' = Some ''0''
      | Inr v \<Rightarrow>
          if 0 \<le> v \<and> v \<le> 5
          then errors ''guests'' = None \<and> cleaned ''guests'' = Some (py_str v) \<and>
               py_int (py_str v) = Inr v
          else errors ''guests'' = Some ''The guest count must be between 0 and 5.'' \<and>
               cleaned ''guests'' = Some ''0'') \<and>
     (form ''guests'' = None \<longrightarrow>
        validate_form form = validate_form (form(''guests'' \<mapsto> ''0'')) \<and>
        errors ''guests'' = None \<and> cleaned ''guests'' = Some ''0'')"
proof -
  let ?g = "form_get form ''guests'' ''0''"
  let ?msg = "''The guest count must be between 0 and 5.''"
  from validate_form_result [of form] obtain errors cleaned where
    v: "validate_form form = Inr (errors, cleaned)" and
    c: "cleaned ''guests'' = Some (py_str (case guests_try ?g of Inl e \<Rightarrow> 0 | Inr v \<Rightarrow> v))" and
    e: "errors ''guests'' = (case guests_try ?g of Inl e \<Rightarrow> Some ?msg | Inr v \<Rightarrow> None)"
    by auto
  have zero: "py_str 0 = ''0''" by (simp add: py_str_def)
  have main: "(case py_int ?g of
        Inl e \<Rightarrow> errors ''guests'' = Some ?msg \<and> cleaned ''guests'' = Some ''0''
      | Inr v \<Rightarrow>
          if 0 \<le> v \<and> v \<le> 5
          then errors ''guests'' = None \<and> cleaned ''guests'' = Some (py_str v) \<and>
               py_int (py_str v) = Inr v
          else errors ''guests'' = Some ?msg \<and> cleaned ''guests'' = Some ''0'')"
  proof (cases ?g rule: guests_try_cases)
    case rejected
    then show ?thesis using c e zero by (cases "py_int ?g") auto
  next
    case (accepted v)
    from py_str_digit [of v] accepted have r: "py_int (py_str v) = Inr v" by blast
    from accepted c e have "errors ''guests'' = None" "cleaned ''guests'' = Some (py_str v)"
      by simp_all
    with accepted r show ?thesis by simp
  qed
  have absent: "form ''guests'' = None \<longrightarrow>
        validate_form form = validate_form (form(''guests'' \<mapsto> ''0'')) \<and>
        errors ''guests'' = None \<and> cleaned ''guests'' = Some ''0''"
  proof
    assume a: "form ''guests'' = None"
    then have "?g = ''0''" by (simp add: form_get_def)
    moreover have "guests_try ''0'' = Inr 0" by (simp add: guests_try_def eval_py_int)
    ultimately have "errors ''guests'' = None \<and> cleaned ''guests'' = Some ''0''"
      using c e zero by simp
    with a show "validate_form form = validate_form (form(''guests'' \<mapsto> ''0'')) \<and>
        errors ''guests'' = None \<and> cleaned ''guests'' = Some ''0''"
      using validate_form_default_guests by blast
  qed
  show ?thesis
    apply (rule exI [of _ errors])
    apply (rule exI [of _ cleaned])
    apply (intro conjI)
      apply (rule v)
     apply (rule main)
    apply (rule absent)
    done
qed

theorem validate_form_guests_witness:
  "(\<exists>errors cleaned.
      validate_form [''guests'' \<mapsto> ''7''] = Inr (errors, cleaned) \<and>
      errors ''guests'' = Some ''The guest count must be between 0 and 5.'' \<and>
      cleaned ''guests'' = Some ''0'') \<and>
   (\<exists>errors cleaned.
      validate_form [''guests'' \<mapsto> ''abc''] = Inr (errors, cleaned) \<and>
      errors ''guests'' = Some ''The guest count must be between 0 and 5.'' \<and>
      cleaned ''guests'' = Some ''0'') \<and>
   (\<exists>errors cleaned.
      validate_form [''guests'' \<mapsto> ''5''] = Inr (errors, cleaned) \<and>
      errors ''guests'' = None \<and> cleaned ''guests'' = Some ''5'') \<and>
   (\<exists>errors cleaned.
      validate_form Map.empty = Inr (errors, cleaned) \<and>
      Map.empty ''guests'' = (None :: string option) \<and>
      errors ''guests'' = None \<and> cleaned ''guests'' = Some ''0'')"
proof -
  have i: "py_int ''7'' = Inr 7" "py_int ''abc'' = Inl ValueError" "py_int ''5'' = Inr 5"
    "py_int ''0'' = Inr 0"
    by (simp_all add: eval_py_int)
  have s: "py_str 5 = ''5''" "py_str 0 = ''0''"
    by (simp_all add: py_str_def)
  show ?thesis
    using validate_form_guests [of "[''guests'' \<mapsto> ''7'']"]
      validate_form_guests [of "[''guests'' \<mapsto> ''abc'']"]
      validate_form_guests [of "[''guests'' \<mapsto> ''5'']"]
      validate_form_guests [of "Map.empty"]
    by (simp add: form_get_def i s) blast
qed

subsection \<open>The cleaned dictionary\<close>

text \<open>
  C3, as stated, fails on a form whose \<open>attending\<close> field is present and empty: the
  code writes \<open>attending or "no"\<close>, and the empty string counts as false, so the cleaned
  value is \<open>"no"\<close> and not the raw value.
\<close>

theorem validate_form_cleaned_counterexample:
  "validate_form
     [''name'' \<mapsto> ''Ada Lovelace'', ''email'' \<mapsto> ''ada@example.org'',
      ''attending'' \<mapsto> '''', ''guests'' \<mapsto> ''1''] =
   Inr ([''attending'' \<mapsto> ''Let us know if you can attend.''],
        [''name'' \<mapsto> ''Ada Lovelace'', ''email'' \<mapsto> ''ada@example.org'',
         ''attending'' \<mapsto> ''no'', ''guests'' \<mapsto> ''1'', ''note'' \<mapsto> ''''])"
proof -
  have "guests_try ''1'' = Inr 1"
    by (simp add: guests_try_def eval_py_int)
  moreover have "re_match_anchored email_pattern ''ada@example.org''"
    by (simp add: eval_email)
  moreover have "py_str 1 = ''1''"
    by (simp add: py_str_def)
  ultimately show ?thesis
    by (simp add: validate_form_def form_get_def eval_strip)
qed

text \<open>
  C3, amended. For every submitted form, also one with errors, \<open>validate_form\<close>
  returns a cleaned dictionary with exactly the five keys \<open>name\<close>, \<open>email\<close>,
  \<open>attending\<close>, \<open>guests\<close> and \<open>note\<close>: the trimmed raw name, the trimmed raw
  email, the raw attending value if the field is present and not empty and \<open>"no"\<close>
  otherwise, the string form of the normalised guest count (the parsed integer when it
  is in 0 to 5, else 0), and the trimmed raw note.
\<close>

theorem validate_form_cleaned:
  "\<exists>errors cleaned. validate_form form = Inr (errors, cleaned) \<and>
     dom cleaned = {''name'', ''email'', ''attending'', ''guests'', ''note''} \<and>
     cleaned ''name'' = Some (strip (form_get form ''name'' '''')) \<and>
     cleaned ''email'' = Some (strip (form_get form ''email'' '''')) \<and>
     cleaned ''attending'' =
       Some (case form ''attending'' of
               None \<Rightarrow> ''no''
             | Some a \<Rightarrow> if a = [] then ''no'' else a) \<and>
     cleaned ''guests'' =
       Some (py_str (case py_int (form_get form ''guests'' ''0'') of
                       Inl e \<Rightarrow> 0
                     | Inr v \<Rightarrow> if 0 \<le> v \<and> v \<le> 5 then v else 0)) \<and>
     cleaned ''note'' = Some (strip (form_get form ''note'' ''''))"
proof -
  let ?g = "form_get form ''guests'' ''0''"
  let ?c = "[''name'' \<mapsto> strip (form_get form ''name'' ''''),
             ''email'' \<mapsto> strip (form_get form ''email'' ''''),
             ''attending'' \<mapsto>
                (case form ''attending'' of None \<Rightarrow> ''no'' | Some a \<Rightarrow> if a = [] then ''no'' else a),
             ''guests'' \<mapsto> py_str (case guests_try ?g of Inl e \<Rightarrow> 0 | Inr v \<Rightarrow> v),
             ''note'' \<mapsto> strip (form_get form ''note'' '''')]"
  have g: "(case guests_try ?g of Inl e \<Rightarrow> 0 | Inr v \<Rightarrow> v) =
           (case py_int ?g of Inl e \<Rightarrow> 0 | Inr v \<Rightarrow> if 0 \<le> v \<and> v \<le> 5 then v else 0)"
    by (simp add: guests_try_def split: sum.splits)
  from validate_form_result [of form] obtain errors where
    v: "validate_form form = Inr (errors, ?c)"
    by blast
  have d: "dom ?c = {''name'', ''email'', ''attending'', ''guests'', ''note''}"
    by (simp only: dom_fun_upd dom_empty option.simps if_False) blast
  have n: "?c ''name'' = Some (strip (form_get form ''name'' ''''))"
    and e: "?c ''email'' = Some (strip (form_get form ''email'' ''''))"
    and a: "?c ''attending'' =
       Some (case form ''attending'' of None \<Rightarrow> ''no'' | Some a \<Rightarrow> if a = [] then ''no'' else a)"
    and gs: "?c ''guests'' = Some (py_str (case guests_try ?g of Inl e \<Rightarrow> 0 | Inr v \<Rightarrow> v))"
    and nt: "?c ''note'' = Some (strip (form_get form ''note'' ''''))"
    by (simp_all only: fun_upd_apply list.inject char.inject simp_thms if_False if_True)
  show ?thesis
    apply (rule exI [of _ errors])
    apply (rule exI [of _ ?c])
    apply (intro conjI)
          apply (rule v)
         apply (rule d)
        apply (rule n)
       apply (rule e)
      apply (rule a)
     apply (subst g [symmetric])
     apply (rule gs)
    apply (rule nt)
    done
qed

theorem validate_form_cleaned_witness:
  "\<exists>errors cleaned.
     validate_form
       [''name'' \<mapsto> '' A '', ''email'' \<mapsto> '' ada@example.org'', ''guests'' \<mapsto> ''9'',
        ''note'' \<mapsto> ''see you '']
       = Inr (errors, cleaned) \<and>
     dom cleaned = {''name'', ''email'', ''attending'', ''guests'', ''note''} \<and>
     cleaned ''name'' = Some ''A'' \<and>
     cleaned ''email'' = Some ''ada@example.org'' \<and>
     cleaned ''attending'' = Some ''no'' \<and>
     cleaned ''guests'' = Some ''0'' \<and>
     cleaned ''note'' = Some ''see you''"
proof -
  have "py_int ''9'' = Inr 9"
    by (simp add: eval_py_int)
  moreover have "py_str 0 = ''0''"
    by (simp add: py_str_def)
  ultimately show ?thesis
    using validate_form_cleaned
      [of "[''name'' \<mapsto> '' A '', ''email'' \<mapsto> '' ada@example.org'', ''guests'' \<mapsto> ''9'',
            ''note'' \<mapsto> ''see you '']"]
    by (simp add: form_get_def eval_strip)
qed

section \<open>The matcher and the shape of an email address\<close>

lemma fullmatch_Nothing [simp]: "fullmatch Nothing s = False"
  by (induction s) auto

lemma fullmatch_Eps [simp]: "fullmatch Eps s \<longleftrightarrow> s = []"
  by (cases s) auto

lemma fullmatch_Alt [simp]: "fullmatch (Alt r1 r2) s \<longleftrightarrow> fullmatch r1 s \<or> fullmatch r2 s"
  by (induction s arbitrary: r1 r2) auto

lemma fullmatch_Atom [simp]: "fullmatch (Atom p) s \<longleftrightarrow> (\<exists>c. s = [c] \<and> p c)"
  by (cases s) auto

lemma fullmatch_Seq:
  "fullmatch (Seq r1 r2) s \<longleftrightarrow> (\<exists>u v. s = u @ v \<and> fullmatch r1 u \<and> fullmatch r2 v)"
proof (induction s arbitrary: r1)
  case Nil
  then show ?case by simp
next
  case (Cons c cs)
  have step: "(\<exists>u v. cs = u @ v \<and> fullmatch (deriv c r1) u \<and> fullmatch r2 v) \<longleftrightarrow>
              (\<exists>u v. c # cs = u @ v \<and> u \<noteq> [] \<and> fullmatch r1 u \<and> fullmatch r2 v)"
  proof
    assume "\<exists>u v. cs = u @ v \<and> fullmatch (deriv c r1) u \<and> fullmatch r2 v"
    then obtain u v where "cs = u @ v" "fullmatch (deriv c r1) u" "fullmatch r2 v" by blast
    then have "c # cs = (c # u) @ v \<and> c # u \<noteq> [] \<and> fullmatch r1 (c # u) \<and> fullmatch r2 v"
      by simp
    then show "\<exists>u v. c # cs = u @ v \<and> u \<noteq> [] \<and> fullmatch r1 u \<and> fullmatch r2 v" by blast
  next
    assume "\<exists>u v. c # cs = u @ v \<and> u \<noteq> [] \<and> fullmatch r1 u \<and> fullmatch r2 v"
    then obtain u v where uv: "c # cs = u @ v" "u \<noteq> []" "fullmatch r1 u" "fullmatch r2 v"
      by blast
    then obtain u' where "u = c # u'" by (cases u) auto
    with uv have "cs = u' @ v \<and> fullmatch (deriv c r1) u' \<and> fullmatch r2 v" by simp
    then show "\<exists>u v. cs = u @ v \<and> fullmatch (deriv c r1) u \<and> fullmatch r2 v" by blast
  qed
  have split: "(\<exists>u v. c # cs = u @ v \<and> fullmatch r1 u \<and> fullmatch r2 v) \<longleftrightarrow>
      (nullable r1 \<and> fullmatch r2 (c # cs)) \<or>
      (\<exists>u v. c # cs = u @ v \<and> u \<noteq> [] \<and> fullmatch r1 u \<and> fullmatch r2 v)"
  proof
    assume "\<exists>u v. c # cs = u @ v \<and> fullmatch r1 u \<and> fullmatch r2 v"
    then obtain u v where uv: "c # cs = u @ v" "fullmatch r1 u" "fullmatch r2 v" by blast
    show "(nullable r1 \<and> fullmatch r2 (c # cs)) \<or>
      (\<exists>u v. c # cs = u @ v \<and> u \<noteq> [] \<and> fullmatch r1 u \<and> fullmatch r2 v)"
    proof (cases "u = []")
      case True
      with uv show ?thesis by simp
    next
      case False
      with uv show ?thesis by blast
    qed
  next
    assume "(nullable r1 \<and> fullmatch r2 (c # cs)) \<or>
      (\<exists>u v. c # cs = u @ v \<and> u \<noteq> [] \<and> fullmatch r1 u \<and> fullmatch r2 v)"
    then show "\<exists>u v. c # cs = u @ v \<and> fullmatch r1 u \<and> fullmatch r2 v"
    proof
      assume "nullable r1 \<and> fullmatch r2 (c # cs)"
      then have "c # cs = [] @ (c # cs) \<and> fullmatch r1 [] \<and> fullmatch r2 (c # cs)" by simp
      then show ?thesis by blast
    next
      assume "\<exists>u v. c # cs = u @ v \<and> u \<noteq> [] \<and> fullmatch r1 u \<and> fullmatch r2 v"
      then show ?thesis by blast
    qed
  qed
  have "fullmatch (Seq r1 r2) (c # cs) \<longleftrightarrow>
        (nullable r1 \<and> fullmatch r2 (c # cs)) \<or>
        (\<exists>u v. cs = u @ v \<and> fullmatch (deriv c r1) u \<and> fullmatch r2 v)"
    using Cons.IH [of "deriv c r1"] by auto
  then show ?case
    unfolding step split .
qed

lemma fullmatch_Star_Atom: "fullmatch (Star (Atom p)) s \<longleftrightarrow> list_all p s"
proof (induction s)
  case Nil
  then show ?case by simp
next
  case (Cons c cs)
  have "fullmatch (Star (Atom p)) (c # cs) \<longleftrightarrow>
        fullmatch (Seq (if p c then Eps else Nothing) (Star (Atom p))) cs"
    by simp
  also have "\<dots> \<longleftrightarrow> p c \<and> fullmatch (Star (Atom p)) cs"
    by (simp add: fullmatch_Seq)
  finally show ?case using Cons.IH by simp
qed

lemma fullmatch_Plus_Atom:
  "fullmatch (Plus (Atom p)) s \<longleftrightarrow> s \<noteq> [] \<and> list_all p s"
proof (cases s)
  case Nil
  then show ?thesis by (simp add: Plus_def)
next
  case (Cons c cs)
  have "fullmatch (Plus (Atom p)) (c # cs) \<longleftrightarrow>
        fullmatch (Seq (if p c then Eps else Nothing) (Star (Atom p))) cs"
    by (simp add: Plus_def)
  also have "\<dots> \<longleftrightarrow> p c \<and> fullmatch (Star (Atom p)) cs"
    by (simp add: fullmatch_Seq)
  finally show ?thesis using Cons by (simp add: fullmatch_Star_Atom)
qed

lemma fullmatch_literal_then:
  "fullmatch (Seq (Atom (\<lambda>c. c = a)) r) s \<longleftrightarrow> (\<exists>v. s = a # v \<and> fullmatch r v)"
  by (cases s) (auto simp: fullmatch_Seq)

lemma fullmatch_email_pattern: "fullmatch email_pattern s \<longleftrightarrow> email_shape s"
proof -
  have "fullmatch email_pattern s \<longleftrightarrow>
        (\<exists>l v. s = l @ v \<and> (l \<noteq> [] \<and> list_all not_at_or_space l) \<and>
           (\<exists>v1. v = CHR ''@'' # v1 \<and>
              (\<exists>d v2. v1 = d @ v2 \<and> (d \<noteq> [] \<and> list_all not_at_or_space d) \<and>
                 (\<exists>t. v2 = CHR ''.'' # t \<and> (t \<noteq> [] \<and> list_all not_at_or_space t)))))"
    unfolding email_pattern_def
    by (simp only: fullmatch_Seq [of "Plus _"] fullmatch_literal_then fullmatch_Plus_Atom)
  also have "\<dots> \<longleftrightarrow> email_shape s"
    unfolding email_shape_def by (simp only: append_Cons append_Nil) blast
  finally show ?thesis .
qed

lemma strip_last: "strip s \<noteq> [] \<Longrightarrow> \<not> isspace (last (strip s))"
proof -
  assume a: "strip s \<noteq> []"
  let ?d = "dropWhile isspace (rev (dropWhile isspace s))"
  from a have ne: "?d \<noteq> []" by (simp add: strip_def)
  then have "\<not> isspace (hd ?d)" by (rule hd_dropWhile)
  moreover have "last (strip s) = hd ?d"
    using ne by (simp add: strip_def last_rev)
  ultimately show ?thesis by simp
qed

lemma re_match_email_strip:
  "re_match_anchored email_pattern (strip s) \<longleftrightarrow> email_shape (strip s)"
proof -
  have "\<not> (strip s \<noteq> [] \<and> last (strip s) = LF)"
    using strip_last [of s] by (auto simp: isspace_def)
  then show ?thesis
    by (auto simp: re_match_anchored_def fullmatch_email_pattern)
qed

text \<open>
  C5. For every submitted form, \<open>validate_form\<close> records the email error if and only
  if the trimmed email value does not have, from start to end, the shape: one or more
  characters that are neither \<open>@\<close> nor whitespace, then \<open>@\<close>, then one or more such
  characters, then a dot, then one or more such characters. So \<open>a@b.c\<close> passes, and
  \<open>a@b\<close>, \<open>a b@c.d\<close> and \<open>@c.d\<close> fail.
\<close>

theorem validate_form_email:
  "\<exists>errors cleaned. validate_form form = Inr (errors, cleaned) \<and>
     (errors ''email'' = Some ''Enter a valid email address.'' \<longleftrightarrow>
        \<not> email_shape (strip (form_get form ''email'' ''''))) \<and>
     (errors ''email'' = None \<longleftrightarrow> email_shape (strip (form_get form ''email'' '''')))"
proof -
  from validate_form_result [of form] obtain errors cleaned where
    v: "validate_form form = Inr (errors, cleaned)" and
    e: "errors ''email'' =
       (if re_match_anchored email_pattern (strip (form_get form ''email'' ''''))
        then None else Some ''Enter a valid email address.'')"
    by blast
  from e have
    "(errors ''email'' = Some ''Enter a valid email address.'' \<longleftrightarrow>
        \<not> email_shape (strip (form_get form ''email'' ''''))) \<and>
     (errors ''email'' = None \<longleftrightarrow> email_shape (strip (form_get form ''email'' '''')))"
    by (simp add: re_match_email_strip)
  with v show ?thesis
    by (intro exI [of _ errors] exI [of _ cleaned] conjI) simp_all
qed

lemma validate_form_email_only:
  assumes "re_match_anchored email_pattern (strip s) = m"
    and "validate_form [''email'' \<mapsto> s] = Inr (errors, cleaned)"
  shows "errors ''email'' = (if m then None else Some ''Enter a valid email address.'')"
proof -
  from validate_form_result [of "[''email'' \<mapsto> s]"] obtain errors' cleaned' where
    "validate_form [''email'' \<mapsto> s] = Inr (errors', cleaned')"
    "errors' ''email'' =
       (if re_match_anchored email_pattern (strip (form_get [''email'' \<mapsto> s] ''email'' ''''))
        then None else Some ''Enter a valid email address.'')"
    by blast
  with assms show ?thesis by (simp add: form_get_def)
qed

theorem validate_form_email_witness:
  "email_shape ''a@b.c'' \<and> \<not> email_shape ''a@b'' \<and> \<not> email_shape ''a b@c.d'' \<and>
   \<not> email_shape ''@c.d''"
proof -
  have s: "strip ''a@b.c'' = ''a@b.c''" "strip ''a@b'' = ''a@b''"
    "strip ''a b@c.d'' = ''a b@c.d''" "strip ''@c.d'' = ''@c.d''"
    by (simp_all add: eval_strip)
  have m: "re_match_anchored email_pattern (strip ''a@b.c'') = True"
    "re_match_anchored email_pattern (strip ''a@b'') = False"
    "re_match_anchored email_pattern (strip ''a b@c.d'') = False"
    "re_match_anchored email_pattern (strip ''@c.d'') = False"
    unfolding s by (simp_all add: eval_email)
  have 1: "email_shape ''a@b.c''"
  proof -
    from validate_form_email [of "[''email'' \<mapsto> ''a@b.c'']"] obtain errors cleaned where
      v: "validate_form [''email'' \<mapsto> ''a@b.c''] = Inr (errors, cleaned)" and
      e: "errors ''email'' = None \<longleftrightarrow> email_shape (strip ''a@b.c'')"
      by (auto simp: form_get_def)
    from validate_form_email_only [OF m(1) v] e show ?thesis by (simp add: s)
  qed
  have 2: "\<not> email_shape ''a@b''"
  proof -
    from validate_form_email [of "[''email'' \<mapsto> ''a@b'']"] obtain errors cleaned where
      v: "validate_form [''email'' \<mapsto> ''a@b''] = Inr (errors, cleaned)" and
      e: "errors ''email'' = None \<longleftrightarrow> email_shape (strip ''a@b'')"
      by (auto simp: form_get_def)
    from validate_form_email_only [OF m(2) v] e show ?thesis by (simp add: s)
  qed
  have 3: "\<not> email_shape ''a b@c.d''"
  proof -
    from validate_form_email [of "[''email'' \<mapsto> ''a b@c.d'']"] obtain errors cleaned where
      v: "validate_form [''email'' \<mapsto> ''a b@c.d''] = Inr (errors, cleaned)" and
      e: "errors ''email'' = None \<longleftrightarrow> email_shape (strip ''a b@c.d'')"
      by (auto simp: form_get_def)
    from validate_form_email_only [OF m(3) v] e show ?thesis by (simp add: s)
  qed
  have 4: "\<not> email_shape ''@c.d''"
  proof -
    from validate_form_email [of "[''email'' \<mapsto> ''@c.d'']"] obtain errors cleaned where
      v: "validate_form [''email'' \<mapsto> ''@c.d''] = Inr (errors, cleaned)" and
      e: "errors ''email'' = None \<longleftrightarrow> email_shape (strip ''@c.d'')"
      by (auto simp: form_get_def)
    from validate_form_email_only [OF m(4) v] e show ?thesis by (simp add: s)
  qed
  from 1 2 3 4 show ?thesis by (intro conjI)
qed

section \<open>Properties of the record store\<close>

lemmas eval_writer =
  csv_writerow_def csv_field_def needs_quote_def double_quotes_def FIELDNAMES_def
  dict_to_list_def

lemmas eval_reader =
  dict_reader_def make_row_def parse_reset_def parse_save_field_def parse_add_char_def
  set_state_def then_state_def field_limit_def

lemma header_line:
  "csv_writerow FIELDNAMES = ''timestamp,name,email,attending,guests,note'' @ [CR, LF]"
  by (simp add: eval_writer)

lemma read_header_only:
  "dict_reader (readlines [] (universal_newlines (csv_writerow FIELDNAMES))) = Inr []"
  by (simp add: header_line eval_reader)

lemma ensure_csv_None: "ensure_csv None = Some (csv_writerow FIELDNAMES)"
  by (simp add: ensure_csv_def)

lemma ensure_csv_Some: "ensure_csv (Some text) = Some text"
  by (simp add: ensure_csv_def)

lemma ensure_csv_twice: "ensure_csv (ensure_csv st) = ensure_csv st"
  by (cases st) (simp_all add: ensure_csv_def)

lemma read_rsvps_missing: "read_rsvps None = (Inr [], Some (csv_writerow FIELDNAMES))"
  by (simp add: read_rsvps_def ensure_csv_None read_header_only)

lemma read_rsvps_ensured: "read_rsvps (ensure_csv st) = read_rsvps st"
  by (simp add: read_rsvps_def ensure_csv_twice)

lemma write_rsvp_ensured: "write_rsvp row (ensure_csv st) = write_rsvp row st"
  by (simp add: write_rsvp_def ensure_csv_twice)

text \<open>
  C8. \<open>ensure_csv\<close> is idempotent. On a missing file it creates the file holding the
  header line only, the six field names in their fixed order, and reading that file
  gives no data row. On an existing file any number of calls leaves the text as it is.
\<close>

theorem ensure_csv_idempotent:
  "ensure_csv None = Some (''timestamp,name,email,attending,guests,note'' @ [CR, LF]) \<and>
   fst (read_rsvps (ensure_csv None)) = Inr [] \<and>
   ensure_csv (Some text) = Some text \<and>
   (ensure_csv ^^ n) (Some text) = Some text \<and>
   ensure_csv (ensure_csv st) = ensure_csv st"
proof -
  have 1: "ensure_csv None = Some (''timestamp,name,email,attending,guests,note'' @ [CR, LF])"
    by (simp only: ensure_csv_None header_line)
  have 2: "fst (read_rsvps (ensure_csv None)) = Inr []"
    by (simp only: read_rsvps_ensured read_rsvps_missing fst_conv)
  have 3: "ensure_csv (Some text) = Some text"
    by (rule ensure_csv_Some)
  have 4: "(ensure_csv ^^ n) (Some text) = Some text"
    by (induction n) (simp_all add: ensure_csv_Some)
  have 5: "ensure_csv (ensure_csv st) = ensure_csv st"
    by (rule ensure_csv_twice)
  from 1 2 3 4 5 show ?thesis by (intro conjI)
qed

theorem ensure_csv_idempotent_witness:
  "ensure_csv None = Some (''timestamp,name,email,attending,guests,note'' @ [CR, LF]) \<and>
   fst (read_rsvps (ensure_csv None)) = Inr [] \<and>
   ensure_csv (Some ''a,b'') = Some ''a,b'' \<and>
   (ensure_csv ^^ 3) (Some ''a,b'') = Some ''a,b'' \<and>
   ensure_csv (ensure_csv None) = ensure_csv None"
  by (rule ensure_csv_idempotent [of "''a,b''" 3 None])

text \<open>
  C9. On a store that was initialised and holds no record, \<open>read_rsvps\<close> returns the
  empty list without an error, and the listing and the export both abort with status
  404 and the message \<open>No RSVPs recorded yet.\<close>; the same holds for every store whose
  read gives no record.
\<close>

theorem empty_store_not_found:
  "fst (read_rsvps (ensure_csv None)) = Inr [] \<and>
   fst (list_rsvps (ensure_csv None)) = Inl (HTTPException 404 ''No RSVPs recorded yet.'') \<and>
   fst (download_rsvps stamp (ensure_csv None)) =
     Inl (HTTPException 404 ''No RSVPs recorded yet.'') \<and>
   (fst (read_rsvps st) = Inr [] \<longrightarrow>
      fst (list_rsvps st) = Inl (HTTPException 404 ''No RSVPs recorded yet.'') \<and>
      fst (download_rsvps stamp st) = Inl (HTTPException 404 ''No RSVPs recorded yet.''))"
proof -
  have gen: "fst (list_rsvps s) = Inl (HTTPException 404 ''No RSVPs recorded yet.'') \<and>
      fst (download_rsvps stamp s) = Inl (HTTPException 404 ''No RSVPs recorded yet.'')"
    if "fst (read_rsvps s) = Inr []" for s
  proof -
    obtain res s1 where r: "read_rsvps s = (res, s1)" by (cases "read_rsvps s")
    with that have "res = Inr []" by simp
    with r show ?thesis
      by (simp add: list_rsvps_def download_rsvps_def rsvps_page_def)
  qed
  have e: "fst (read_rsvps (ensure_csv None)) = Inr []"
    by (simp add: read_rsvps_ensured read_rsvps_missing)
  from gen [OF e] e gen [of st] show ?thesis by blast
qed

theorem empty_store_not_found_witness:
  "fst (read_rsvps (Some (''timestamp,name,email,attending,guests,note'' @ [CR, LF]))) = Inr [] \<and>
   fst (list_rsvps (Some (''timestamp,name,email,attending,guests,note'' @ [CR, LF]))) =
     Inl (HTTPException 404 ''No RSVPs recorded yet.'') \<and>
   fst (download_rsvps ''20240726180000''
          (Some (''timestamp,name,email,attending,guests,note'' @ [CR, LF]))) =
     Inl (HTTPException 404 ''No RSVPs recorded yet.'')"
proof -
  let ?st = "Some (''timestamp,name,email,attending,guests,note'' @ [CR, LF])"
  have r: "fst (read_rsvps ?st) = Inr []"
    by (simp add: read_rsvps_def ensure_csv_def eval_reader)
  with empty_store_not_found [of "''20240726180000''" ?st] show ?thesis
    by simp
qed

text \<open>
  C10. Neither store operation needs a call of \<open>ensure_csv\<close> before it. On a missing
  file \<open>read_rsvps\<close> creates the header-only file and returns the empty list, with no
  error; \<open>write_rsvp\<close> always leaves a file behind, and for a record whose keys are
  field names that file is the header line followed by the line of the record. Both
  give what they give after an explicit \<open>ensure_csv\<close>.
\<close>

theorem store_self_initialises:
  "read_rsvps None = (Inr [], Some (''timestamp,name,email,attending,guests,note'' @ [CR, LF])) \<and>
   read_rsvps None = read_rsvps (ensure_csv None) \<and>
   write_rsvp row None = write_rsvp row (ensure_csv None) \<and>
   snd (write_rsvp row None) \<noteq> None \<and>
   (dom row \<subseteq> set FIELDNAMES \<longrightarrow>
      write_rsvp row None =
        (Inr (),
         Some (''timestamp,name,email,attending,guests,note'' @ [CR, LF] @
               csv_writerow (map (\<lambda>k. case row k of None \<Rightarrow> [] | Some v \<Rightarrow> v) FIELDNAMES))))"
proof -
  have 1: "read_rsvps None =
      (Inr [], Some (''timestamp,name,email,attending,guests,note'' @ [CR, LF]))"
    by (simp only: read_rsvps_missing header_line)
  have 2: "read_rsvps None = read_rsvps (ensure_csv None)"
    by (simp only: read_rsvps_ensured)
  have 3: "write_rsvp row None = write_rsvp row (ensure_csv None)"
    by (simp only: write_rsvp_ensured)
  have 4: "snd (write_rsvp row None) \<noteq> None"
    by (simp add: write_rsvp_def Let_def split: sum.splits)
  have 5: "dom row \<subseteq> set FIELDNAMES \<longrightarrow>
      write_rsvp row None =
        (Inr (),
         Some (''timestamp,name,email,attending,guests,note'' @ [CR, LF] @
               csv_writerow (map (\<lambda>k. case row k of None \<Rightarrow> [] | Some v \<Rightarrow> v) FIELDNAMES)))"
  proof
    assume "dom row \<subseteq> set FIELDNAMES"
    then have "dom row - set FIELDNAMES = {}" by blast
    then have "dict_to_list row =
        Inr (map (\<lambda>k. case row k of None \<Rightarrow> [] | Some v \<Rightarrow> v) FIELDNAMES)"
      by (simp only: dict_to_list_def if_False simp_thms)
    then show "write_rsvp row None =
        (Inr (),
         Some (''timestamp,name,email,attending,guests,note'' @ [CR, LF] @
               csv_writerow (map (\<lambda>k. case row k of None \<Rightarrow> [] | Some v \<Rightarrow> v) FIELDNAMES)))"
      by (simp add: write_rsvp_def ensure_csv_None header_line)
  qed
  from 1 2 3 4 5 show ?thesis by (intro conjI)
qed

theorem store_self_initialises_witness:
  "read_rsvps None = (Inr [], Some (''timestamp,name,email,attending,guests,note'' @ [CR, LF])) \<and>
   write_rsvp
     [''timestamp'' \<mapsto> ''2024-07-01T10:00:00'', ''name'' \<mapsto> ''Ada'',
      ''email'' \<mapsto> ''ada@example.org'', ''attending'' \<mapsto> ''yes'', ''guests'' \<mapsto> ''2'',
      ''note'' \<mapsto> ''hi, all'']
     None =
   (Inr (),
    Some (''timestamp,name,email,attending,guests,note'' @ [CR, LF] @
          ''2024-07-01T10:00:00,Ada,ada@example.org,yes,2,'' @ [DQUOTE] @ ''hi, all'' @
          [DQUOTE, CR, LF]))"
proof -
  let ?r = "[''timestamp'' \<mapsto> ''2024-07-01T10:00:00'', ''name'' \<mapsto> ''Ada'',
      ''email'' \<mapsto> ''ada@example.org'', ''attending'' \<mapsto> ''yes'', ''guests'' \<mapsto> ''2'',
      ''note'' \<mapsto> ''hi, all'']"
  have d: "dom ?r \<subseteq> set FIELDNAMES"
    by (simp add: FIELDNAMES_def)
  have w: "csv_writerow (map (\<lambda>k. case ?r k of None \<Rightarrow> [] | Some v \<Rightarrow> v) FIELDNAMES) =
      ''2024-07-01T10:00:00,Ada,ada@example.org,yes,2,'' @ [DQUOTE] @ ''hi, all'' @
          [DQUOTE, CR, LF]"
    by (simp add: eval_writer)
  from store_self_initialises [of ?r] d have
    "read_rsvps None = (Inr [], Some (''timestamp,name,email,attending,guests,note'' @ [CR, LF]))"
    "write_rsvp ?r None =
        (Inr (),
         Some (''timestamp,name,email,attending,guests,note'' @ [CR, LF] @
               csv_writerow (map (\<lambda>k. case ?r k of None \<Rightarrow> [] | Some v \<Rightarrow> v) FIELDNAMES)))"
    by blast+
  then show ?thesis
    unfolding w by (intro conjI)
qed

subsection \<open>A record written and read back\<close>

text \<open>
  C4, at a record whose note has two lines separated by \<open>\r\n\<close>, as a browser submits
  a text area. \<open>write_rsvp\<close> opens the file with \<open>newline=""\<close> and writes the note
  as it is, between quotes. \<open>read_rsvps\<close> opens the file without \<open>newline=""\<close>, so
  the \<open>\r\n\<close> inside the quotes is translated to \<open>\n\<close> before the reader sees it: the
  note that is read back is not the note that was appended.
\<close>

theorem write_then_read_changes_note:
  "write_rsvp
     [''timestamp'' \<mapsto> ''t'', ''name'' \<mapsto> ''Ada'', ''email'' \<mapsto> ''a@b.c'',
      ''attending'' \<mapsto> ''yes'', ''guests'' \<mapsto> ''2'', ''note'' \<mapsto> ''a'' @ [CR, LF] @ ''b'']
     (ensure_csv None) =
   (Inr (),
    Some (''timestamp,name,email,attending,guests,note'' @ [CR, LF] @
          ''t,Ada,a@b.c,yes,2,'' @ [DQUOTE] @ ''a'' @ [CR, LF] @ ''b'' @ [DQUOTE, CR, LF])) \<and>
   fst (read_rsvps
     (Some (''timestamp,name,email,attending,guests,note'' @ [CR, LF] @
            ''t,Ada,a@b.c,yes,2,'' @ [DQUOTE] @ ''a'' @ [CR, LF] @ ''b'' @ [DQUOTE, CR, LF]))) =
   Inr [\<lparr>named =
           [''timestamp'' \<mapsto> Some ''t'', ''name'' \<mapsto> Some ''Ada'', ''email'' \<mapsto> Some ''a@b.c'',
            ''attending'' \<mapsto> Some ''yes'', ''guests'' \<mapsto> Some ''2'',
            ''note'' \<mapsto> Some (''a'' @ [LF] @ ''b'')],
         extra = None\<rparr>]"
proof -
  have w: "write_rsvp
     [''timestamp'' \<mapsto> ''t'', ''name'' \<mapsto> ''Ada'', ''email'' \<mapsto> ''a@b.c'',
      ''attending'' \<mapsto> ''yes'', ''guests'' \<mapsto> ''2'', ''note'' \<mapsto> ''a'' @ [CR, LF] @ ''b'']
     (ensure_csv None) =
   (Inr (),
    Some (''timestamp,name,email,attending,guests,note'' @ [CR, LF] @
          ''t,Ada,a@b.c,yes,2,'' @ [DQUOTE] @ ''a'' @ [CR, LF] @ ''b'' @ [DQUOTE, CR, LF]))"
    by (simp add: write_rsvp_def ensure_csv_def eval_writer)
  have r: "fst (read_rsvps
     (Some (''timestamp,name,email,attending,guests,note'' @ [CR, LF] @
            ''t,Ada,a@b.c,yes,2,'' @ [DQUOTE] @ ''a'' @ [CR, LF] @ ''b'' @ [DQUOTE, CR, LF]))) =
   Inr [\<lparr>named =
           [''timestamp'' \<mapsto> Some ''t'', ''name'' \<mapsto> Some ''Ada'', ''email'' \<mapsto> Some ''a@b.c'',
            ''attending'' \<mapsto> Some ''yes'', ''guests'' \<mapsto> Some ''2'',
            ''note'' \<mapsto> Some (''a'' @ [LF] @ ''b'')],
         extra = None\<rparr>]"
    by (simp add: read_rsvps_def ensure_csv_def eval_reader)
  from w r show ?thesis by (rule conjI)
qed

section \<open>The round trip without carriage returns\<close>

subsection \<open>Text mode\<close>

lemma universal_newlines_other:
  "c \<noteq> CR \<Longrightarrow> universal_newlines (c # cs) = c # universal_newlines cs"
  by (cases cs) simp_all

lemma universal_newlines_line:
  "CR \<notin> set a \<Longrightarrow> universal_newlines (a @ CR # LF # b) = a @ LF # universal_newlines b"
  by (induction a) (auto simp: universal_newlines_other)

lemma readlines_segment:
  "LF \<notin> set seg \<Longrightarrow> readlines cur (seg @ text) = readlines (cur @ seg) text"
  by (induction seg arbitrary: cur) auto

lemma readlines_newline:
  "readlines cur (LF # text) = (cur @ [LF]) # readlines [] text"
  by simp

subsection \<open>The parser on the characters of a line\<close>

lemma parse_line_chars:
  "parse_line r cs =
     (case parse_chars r cs of Inl e \<Rightarrow> Inl e | Inr r' \<Rightarrow> parse_process_char r' None)"
  by (induction cs arbitrary: r) (simp_all split: sum.splits)

lemma parse_chars_append:
  "parse_chars r (a @ b) =
     (case parse_chars r a of Inl e \<Rightarrow> Inl e | Inr r' \<Rightarrow> parse_chars r' b)"
  by (induction a arbitrary: r) (simp_all split: sum.splits)

lemma parse_chars_snoc:
  "parse_chars r cur = Inr q \<Longrightarrow>
   parse_chars r (cur @ [c]) = parse_process_char q (Some c)"
  by (simp add: parse_chars_append split: sum.splits)

lemma parse_chars_snoc2:
  "parse_chars r cur = Inr q \<Longrightarrow> parse_process_char q (Some c) = Inr q1 \<Longrightarrow>
   parse_process_char q1 (Some d) = Inr q2 \<Longrightarrow>
   parse_chars r (cur @ [c, d]) = Inr q2"
  by (simp add: parse_chars_append)

text \<open>The steps of the parser, one lemma for each state and kind of character.\<close>

lemma step_quoted_plain:
  "c \<noteq> DQUOTE \<Longrightarrow> length f < field_limit \<Longrightarrow>
   parse_process_char \<lparr>state = IN_QUOTED_FIELD, field = f, saved_fields = sv\<rparr> (Some c) =
   Inr \<lparr>state = IN_QUOTED_FIELD, field = f @ [c], saved_fields = sv\<rparr>"
  by (simp add: parse_add_char_def)

lemma step_quoted_quote:
  "parse_process_char \<lparr>state = IN_QUOTED_FIELD, field = f, saved_fields = sv\<rparr> (Some DQUOTE) =
   Inr \<lparr>state = QUOTE_IN_QUOTED_FIELD, field = f, saved_fields = sv\<rparr>"
  by (simp add: set_state_def)

lemma step_quote_quote:
  "length f < field_limit \<Longrightarrow>
   parse_process_char \<lparr>state = QUOTE_IN_QUOTED_FIELD, field = f, saved_fields = sv\<rparr>
     (Some DQUOTE) =
   Inr \<lparr>state = IN_QUOTED_FIELD, field = f @ [DQUOTE], saved_fields = sv\<rparr>"
  by (simp add: parse_add_char_def then_state_def set_state_def)

lemma step_quoted_eol:
  "parse_process_char \<lparr>state = IN_QUOTED_FIELD, field = f, saved_fields = sv\<rparr> None =
   Inr \<lparr>state = IN_QUOTED_FIELD, field = f, saved_fields = sv\<rparr>"
  by simp

lemma step_field_plain:
  "\<not> needs_quote c \<Longrightarrow> length f < field_limit \<Longrightarrow>
   parse_process_char \<lparr>state = IN_FIELD, field = f, saved_fields = sv\<rparr> (Some c) =
   Inr \<lparr>state = IN_FIELD, field = f @ [c], saved_fields = sv\<rparr>"
  by (simp add: parse_add_char_def needs_quote_def)

lemma step_start_plain:
  "\<not> needs_quote c \<Longrightarrow> s = START_RECORD \<or> s = START_FIELD \<Longrightarrow>
   parse_process_char \<lparr>state = s, field = [], saved_fields = sv\<rparr> (Some c) =
   Inr \<lparr>state = IN_FIELD, field = [c], saved_fields = sv\<rparr>"
  by (auto simp: parse_add_char_def needs_quote_def then_state_def set_state_def
      field_limit_def)

lemma step_start_quote:
  "s = START_RECORD \<or> s = START_FIELD \<Longrightarrow>
   parse_process_char \<lparr>state = s, field = [], saved_fields = sv\<rparr> (Some DQUOTE) =
   Inr \<lparr>state = IN_QUOTED_FIELD, field = [], saved_fields = sv\<rparr>"
  by (auto simp: set_state_def)

text \<open>
  The states in which a field has just ended: nothing was read of an empty field, or
  an unquoted field is under way, or the closing quote was read.
\<close>

lemma step_end_comma:
  "s = START_RECORD \<and> f = [] \<or> s = START_FIELD \<and> f = [] \<or> s = IN_FIELD \<or>
   s = QUOTE_IN_QUOTED_FIELD \<Longrightarrow>
   parse_process_char \<lparr>state = s, field = f, saved_fields = sv\<rparr> (Some (CHR '','')) =
   Inr \<lparr>state = START_FIELD, field = [], saved_fields = sv @ [f]\<rparr>"
  by (auto simp: set_state_def parse_save_field_def)

lemma step_end_newline:
  "s = START_FIELD \<and> f = [] \<or> s = IN_FIELD \<or> s = QUOTE_IN_QUOTED_FIELD \<Longrightarrow>
   parse_process_char \<lparr>state = s, field = f, saved_fields = sv\<rparr> (Some LF) =
   Inr \<lparr>state = EAT_CRNL, field = [], saved_fields = sv @ [f]\<rparr>"
  by (auto simp: set_state_def parse_save_field_def)

lemma step_eat_eol:
  "parse_process_char \<lparr>state = EAT_CRNL, field = f, saved_fields = sv\<rparr> None =
   Inr \<lparr>state = START_RECORD, field = f, saved_fields = sv\<rparr>"
  by (simp add: set_state_def)


subsection \<open>A written field, read back\<close>

text \<open>
  The reader is fed line by line; \<open>r\<close> is its state at the start of the line under way
  and \<open>cur\<close> the part of that line already taken from the text, so that
  \<open>parse_chars r cur\<close> is the state the parser will be in after \<open>cur\<close>.
\<close>

lemma double_quotes_Cons:
  "double_quotes (c # g) = (if c = DQUOTE then [DQUOTE, DQUOTE] else [c]) @ double_quotes g"
  by (simp add: double_quotes_def)

lemma reader_records_open_line:
  assumes "parse_chars r cur = Inr \<lparr>state = IN_QUOTED_FIELD, field = f, saved_fields = sv\<rparr>"
    and "length f < field_limit"
  shows "reader_records r ((cur @ [LF]) # ls) =
         reader_records \<lparr>state = IN_QUOTED_FIELD, field = f @ [LF], saved_fields = sv\<rparr> ls"
proof -
  have "parse_chars r (cur @ [LF]) =
        Inr \<lparr>state = IN_QUOTED_FIELD, field = f @ [LF], saved_fields = sv\<rparr>"
    using parse_chars_snoc [OF assms(1), of LF] step_quoted_plain [OF _ assms(2), of LF sv]
    by simp
  then have "parse_line r (cur @ [LF]) =
        Inr \<lparr>state = IN_QUOTED_FIELD, field = f @ [LF], saved_fields = sv\<rparr>"
    by (simp only: parse_line_chars sum.case step_quoted_eol)
  then show ?thesis by simp
qed

lemma quoted_body:
  assumes "CR \<notin> set g" and "length f + length g \<le> field_limit"
    and "parse_chars r cur = Inr \<lparr>state = IN_QUOTED_FIELD, field = f, saved_fields = sv\<rparr>"
  shows "\<exists>r' cur'.
           parse_chars r' cur' =
             Inr \<lparr>state = IN_QUOTED_FIELD, field = f @ g, saved_fields = sv\<rparr> \<and>
           (\<forall>tail. reader_records r (readlines cur (double_quotes g @ tail)) =
                   reader_records r' (readlines cur' tail))"
  using assms
proof (induction g arbitrary: r cur f)
  case Nil
  then show ?case by (auto simp: double_quotes_def)
next
  case (Cons c g)
  from Cons.prems have cr: "CR \<notin> set g" and lt: "length f < field_limit"
    and le: "length (f @ [c]) + length g \<le> field_limit"
    by simp_all
  note p = Cons.prems(3)
  consider (quote) "c = DQUOTE" | (newline) "c = LF" | (other) "c \<noteq> DQUOTE" "c \<noteq> LF"
    by blast
  then show ?case
  proof cases
    case quote
    have "parse_chars r (cur @ [DQUOTE, DQUOTE]) =
          Inr \<lparr>state = IN_QUOTED_FIELD, field = f @ [c], saved_fields = sv\<rparr>"
      unfolding quote
      by (rule parse_chars_snoc2 [OF p step_quoted_quote step_quote_quote [OF lt]])
    from Cons.IH [OF cr le this] obtain r' cur' where
      a: "parse_chars r' cur' =
            Inr \<lparr>state = IN_QUOTED_FIELD, field = (f @ [c]) @ g, saved_fields = sv\<rparr>" and
      b: "\<And>tail. reader_records r (readlines (cur @ [DQUOTE, DQUOTE]) (double_quotes g @ tail)) =
            reader_records r' (readlines cur' tail)"
      by blast
    have "readlines cur (double_quotes (c # g) @ tail) =
          readlines (cur @ [DQUOTE, DQUOTE]) (double_quotes g @ tail)" for tail
      by (simp add: double_quotes_Cons quote)
    with a b show ?thesis by auto
  next
    case newline
    let ?q = "\<lparr>state = IN_QUOTED_FIELD, field = f @ [c], saved_fields = sv\<rparr>"
    have "parse_chars ?q [] = Inr ?q" by simp
    from Cons.IH [OF cr le this] obtain r' cur' where
      a: "parse_chars r' cur' =
            Inr \<lparr>state = IN_QUOTED_FIELD, field = (f @ [c]) @ g, saved_fields = sv\<rparr>" and
      b: "\<And>tail. reader_records ?q (readlines [] (double_quotes g @ tail)) =
            reader_records r' (readlines cur' tail)"
      by blast
    have "reader_records r (readlines cur (double_quotes (c # g) @ tail)) =
          reader_records ?q (readlines [] (double_quotes g @ tail))" for tail
      using reader_records_open_line [OF p lt]
      by (simp add: double_quotes_Cons newline)
    with a b show ?thesis by auto
  next
    case other
    have "parse_chars r (cur @ [c]) =
          Inr \<lparr>state = IN_QUOTED_FIELD, field = f @ [c], saved_fields = sv\<rparr>"
      using parse_chars_snoc [OF p, of c] step_quoted_plain [OF other(1) lt, of sv] by simp
    from Cons.IH [OF cr le this] obtain r' cur' where
      a: "parse_chars r' cur' =
            Inr \<lparr>state = IN_QUOTED_FIELD, field = (f @ [c]) @ g, saved_fields = sv\<rparr>" and
      b: "\<And>tail. reader_records r (readlines (cur @ [c]) (double_quotes g @ tail)) =
            reader_records r' (readlines cur' tail)"
      by blast
    have "readlines cur (double_quotes (c # g) @ tail) =
          readlines (cur @ [c]) (double_quotes g @ tail)" for tail
      using other by (simp add: double_quotes_Cons)
    with a b show ?thesis by auto
  qed
qed

lemma plain_body:
  assumes "\<not> list_ex needs_quote g" and "length f + length g \<le> field_limit"
    and "parse_chars r cur = Inr \<lparr>state = IN_FIELD, field = f, saved_fields = sv\<rparr>"
  shows "parse_chars r (cur @ g) = Inr \<lparr>state = IN_FIELD, field = f @ g, saved_fields = sv\<rparr>"
  using assms
proof (induction g arbitrary: cur f)
  case Nil
  then show ?case by simp
next
  case (Cons c g)
  from Cons.prems have n: "\<not> needs_quote c" and g: "\<not> list_ex needs_quote g"
    and lt: "length f < field_limit" and le: "length (f @ [c]) + length g \<le> field_limit"
    by simp_all
  have "parse_chars r (cur @ [c]) =
        Inr \<lparr>state = IN_FIELD, field = f @ [c], saved_fields = sv\<rparr>"
    using parse_chars_snoc [OF Cons.prems(3), of c] step_field_plain [OF n lt, of sv] by simp
  from Cons.IH [OF g le this] show ?case by simp
qed

lemma plain_no_newline: "\<not> list_ex needs_quote g \<Longrightarrow> LF \<notin> set g"
  by (auto simp: list_ex_iff needs_quote_def)

text \<open>
  After a field the parser has the field in its buffer and is in one of the states
  in which a field may end.
\<close>

lemma one_field:
  assumes "CR \<notin> set f" and "length f \<le> field_limit"
    and "s = START_RECORD \<or> s = START_FIELD"
    and "parse_chars r cur = Inr \<lparr>state = s, field = [], saved_fields = sv\<rparr>"
  shows "\<exists>r' cur' s'.
           (s' = START_RECORD \<and> s = START_RECORD \<and> f = [] \<or> s' = START_FIELD \<and> f = [] \<or>
            s' = IN_FIELD \<or> s' = QUOTE_IN_QUOTED_FIELD) \<and>
           parse_chars r' cur' = Inr \<lparr>state = s', field = f, saved_fields = sv\<rparr> \<and>
           (\<forall>tail. reader_records r (readlines cur (csv_field f @ tail)) =
                   reader_records r' (readlines cur' tail))"
proof -
  consider (empty) "f = []" | (quoted) "list_ex needs_quote f"
    | (plain) c g where "f = c # g" "\<not> list_ex needs_quote f"
    by (cases f) auto
  then show ?thesis
  proof cases
    case empty
    have "csv_field f = []" by (simp add: empty csv_field_def)
    with assms(3,4) show ?thesis
      unfolding empty by (intro exI [of _ r] exI [of _ cur] exI [of _ s]) auto
  next
    case quoted
    have "parse_chars r (cur @ [DQUOTE]) =
          Inr \<lparr>state = IN_QUOTED_FIELD, field = [], saved_fields = sv\<rparr>"
      using parse_chars_snoc [OF assms(4), of DQUOTE] step_start_quote [OF assms(3), of sv]
      by simp
    from quoted_body [OF assms(1) _ this] assms(2) obtain r' cur' where
      a: "parse_chars r' cur' =
            Inr \<lparr>state = IN_QUOTED_FIELD, field = f, saved_fields = sv\<rparr>" and
      b: "\<And>tail. reader_records r (readlines (cur @ [DQUOTE]) (double_quotes f @ tail)) =
            reader_records r' (readlines cur' tail)"
      by auto
    have c: "parse_chars r' (cur' @ [DQUOTE]) =
          Inr \<lparr>state = QUOTE_IN_QUOTED_FIELD, field = f, saved_fields = sv\<rparr>"
      using parse_chars_snoc [OF a, of DQUOTE] step_quoted_quote [of f sv] by simp
    have "reader_records r (readlines cur (csv_field f @ tail)) =
          reader_records r' (readlines (cur' @ [DQUOTE]) tail)" for tail
    proof -
      have "readlines cur (csv_field f @ tail) =
            readlines (cur @ [DQUOTE]) (double_quotes f @ DQUOTE # tail)"
        using quoted by (simp add: csv_field_def)
      also have "reader_records r \<dots> = reader_records r' (readlines cur' (DQUOTE # tail))"
        by (rule b)
      finally show ?thesis by simp
    qed
    with c show ?thesis
      by (intro exI [of _ r'] exI [of _ "cur' @ [DQUOTE]"]
          exI [of _ QUOTE_IN_QUOTED_FIELD]) simp
  next
    case plain
    from plain have n: "\<not> needs_quote c" and g: "\<not> list_ex needs_quote g" by simp_all
    have "parse_chars r (cur @ [c]) = Inr \<lparr>state = IN_FIELD, field = [c], saved_fields = sv\<rparr>"
      using parse_chars_snoc [OF assms(4), of c] step_start_plain [OF n assms(3), of sv]
      by simp
    from plain_body [OF g _ this] assms(2) plain(1)
    have c: "parse_chars r (cur @ f) = Inr \<lparr>state = IN_FIELD, field = f, saved_fields = sv\<rparr>"
      by simp
    have "readlines cur (csv_field f @ tail) = readlines (cur @ f) tail" for tail
      using plain(2) readlines_segment [OF plain_no_newline [OF plain(2)]]
      by (simp add: csv_field_def)
    with c show ?thesis
      by (intro exI [of _ r] exI [of _ "cur @ f"] exI [of _ IN_FIELD]) simp
  qed
qed

subsection \<open>A written record, read back\<close>

lemma join_fields_Cons:
  "fs \<noteq> [] \<Longrightarrow> join_fields (f # fs) = f @ CHR '','' # join_fields fs"
  by (cases fs) simp_all

lemma reader_records_last_line:
  assumes "parse_chars r cur = Inr \<lparr>state = s, field = f, saved_fields = sv\<rparr>"
    and "s = START_FIELD \<and> f = [] \<or> s = IN_FIELD \<or> s = QUOTE_IN_QUOTED_FIELD"
  shows "reader_records r ((cur @ [LF]) # ls) =
         (case reader_records parse_reset ls of
            Inl e \<Rightarrow> Inl e
          | Inr recs \<Rightarrow> Inr ((sv @ [f]) # recs))"
proof -
  have "parse_chars r (cur @ [LF]) = Inr \<lparr>state = EAT_CRNL, field = [], saved_fields = sv @ [f]\<rparr>"
    using parse_chars_snoc [OF assms(1), of LF] step_end_newline [OF assms(2), of sv] by simp
  then have "parse_line r (cur @ [LF]) =
        Inr \<lparr>state = START_RECORD, field = [], saved_fields = sv @ [f]\<rparr>"
    by (simp only: parse_line_chars sum.case step_eat_eol)
  then show ?thesis by (simp split: sum.splits)
qed

lemma rest_of_record:
  assumes "fs \<noteq> []" and "\<forall>f\<in>set fs. CR \<notin> set f \<and> length f \<le> field_limit"
    and "s = START_RECORD \<and> fs \<noteq> [[]] \<or> s = START_FIELD"
    and "parse_chars r cur = Inr \<lparr>state = s, field = [], saved_fields = sv\<rparr>"
  shows "reader_records r (readlines cur (join_fields (map csv_field fs) @ LF # rest)) =
         (case reader_records parse_reset (readlines [] rest) of
            Inl e \<Rightarrow> Inl e
          | Inr recs \<Rightarrow> Inr ((sv @ fs) # recs))"
  using assms
proof (induction fs arbitrary: r cur s sv rule: list_nonempty_induct)
  case (single f)
  from single.prems(1) have f: "CR \<notin> set f" "length f \<le> field_limit" by simp_all
  from single.prems(2) have s: "s = START_RECORD \<or> s = START_FIELD" by blast
  from one_field [OF f s single.prems(3)] obtain r' cur' s' where
    e: "s' = START_RECORD \<and> s = START_RECORD \<and> f = [] \<or> s' = START_FIELD \<and> f = [] \<or>
        s' = IN_FIELD \<or> s' = QUOTE_IN_QUOTED_FIELD" and
    a: "parse_chars r' cur' = Inr \<lparr>state = s', field = f, saved_fields = sv\<rparr>" and
    b: "\<And>tail. reader_records r (readlines cur (csv_field f @ tail)) =
          reader_records r' (readlines cur' tail)"
    by blast
  from e single.prems(2)
  have e': "s' = START_FIELD \<and> f = [] \<or> s' = IN_FIELD \<or> s' = QUOTE_IN_QUOTED_FIELD"
    by auto
  have "reader_records r (readlines cur (join_fields (map csv_field [f]) @ LF # rest)) =
        reader_records r' (readlines cur' (LF # rest))"
    using b [of "LF # rest"] by simp
  also have "\<dots> = reader_records r' ((cur' @ [LF]) # readlines [] rest)"
    by simp
  also have "\<dots> = (case reader_records parse_reset (readlines [] rest) of
            Inl e \<Rightarrow> Inl e
          | Inr recs \<Rightarrow> Inr ((sv @ [f]) # recs))"
    by (rule reader_records_last_line [OF a e'])
  finally show ?case .
next
  case (cons f fs)
  from cons.prems(1) have f: "CR \<notin> set f" "length f \<le> field_limit"
    and fs: "\<forall>f\<in>set fs. CR \<notin> set f \<and> length f \<le> field_limit"
    by simp_all
  from cons.prems(2) have s: "s = START_RECORD \<or> s = START_FIELD" by blast
  from one_field [OF f s cons.prems(3)] obtain r' cur' s' where
    e: "s' = START_RECORD \<and> s = START_RECORD \<and> f = [] \<or> s' = START_FIELD \<and> f = [] \<or>
        s' = IN_FIELD \<or> s' = QUOTE_IN_QUOTED_FIELD" and
    a: "parse_chars r' cur' = Inr \<lparr>state = s', field = f, saved_fields = sv\<rparr>" and
    b: "\<And>tail. reader_records r (readlines cur (csv_field f @ tail)) =
          reader_records r' (readlines cur' tail)"
    by blast
  from e have e': "s' = START_RECORD \<and> f = [] \<or> s' = START_FIELD \<and> f = [] \<or> s' = IN_FIELD \<or>
      s' = QUOTE_IN_QUOTED_FIELD"
    by blast
  have c: "parse_chars r' (cur' @ [CHR '','']) =
        Inr \<lparr>state = START_FIELD, field = [], saved_fields = sv @ [f]\<rparr>"
    using parse_chars_snoc [OF a, of "CHR '',''"] step_end_comma [OF e', of sv] by simp
  have "reader_records r (readlines cur (join_fields (map csv_field (f # fs)) @ LF # rest)) =
        reader_records r'
          (readlines cur' (CHR '','' # join_fields (map csv_field fs) @ LF # rest))"
    using b [of "CHR '','' # join_fields (map csv_field fs) @ LF # rest"] cons.hyps
    by (simp add: join_fields_Cons)
  also have "\<dots> = reader_records r'
          (readlines (cur' @ [CHR '','']) (join_fields (map csv_field fs) @ LF # rest))"
    by simp
  also have "\<dots> = (case reader_records parse_reset (readlines [] rest) of
            Inl e \<Rightarrow> Inl e
          | Inr recs \<Rightarrow> Inr (((sv @ [f]) @ fs) # recs))"
    by (rule cons.IH [OF fs _ c]) simp
  finally show ?case by (simp split: sum.splits)
qed

lemma csv_field_no_return: "CR \<notin> set f \<Longrightarrow> CR \<notin> set (csv_field f)"
  by (auto simp: csv_field_def double_quotes_def split: if_splits)

lemma join_fields_no_return:
  "\<forall>f\<in>set fs. CR \<notin> set f \<Longrightarrow> CR \<notin> set (join_fields fs)"
  by (induction fs rule: join_fields.induct) simp_all

text \<open>
  Records written one after the other by the writer, none of them empty and none with
  a carriage return in a field or a field over the reader's limit, are the records
  that the reader gives for the text read in text mode.
\<close>

lemma reader_records_written:
  assumes "\<forall>fs\<in>set recs. fs \<noteq> [] \<and> (\<forall>f\<in>set fs. CR \<notin> set f \<and> length f \<le> field_limit)"
  shows "reader_records parse_reset
           (readlines [] (universal_newlines (concat (map csv_writerow recs)))) = Inr recs"
  using assms
proof (induction recs)
  case Nil
  then show ?case by (simp add: parse_reset_def)
next
  case (Cons fs recs)
  from Cons.prems have ne: "fs \<noteq> []" and
    ok: "\<forall>f\<in>set fs. CR \<notin> set f \<and> length f \<le> field_limit" and
    rest: "\<forall>fs\<in>set recs. fs \<noteq> [] \<and> (\<forall>f\<in>set fs. CR \<notin> set f \<and> length f \<le> field_limit)"
    by simp_all
  let ?rest = "universal_newlines (concat (map csv_writerow recs))"
  have ih: "reader_records parse_reset (readlines [] ?rest) = Inr recs"
    by (rule Cons.IH [OF rest])
  have p: "parse_chars parse_reset [] =
        Inr \<lparr>state = START_RECORD, field = [], saved_fields = []\<rparr>"
    by (simp add: parse_reset_def)
  show ?case
  proof (cases "fs = [[]]")
    case True
    have "universal_newlines (concat (map csv_writerow (fs # recs))) =
          [DQUOTE, DQUOTE] @ LF # ?rest"
      using universal_newlines_line [of "[DQUOTE, DQUOTE]" "concat (map csv_writerow recs)"]
      by (simp add: True csv_writerow_def)
    moreover have "reader_records parse_reset (readlines [] ([DQUOTE, DQUOTE] @ LF # ?rest)) =
          (case reader_records parse_reset (readlines [] ?rest) of
             Inl e \<Rightarrow> Inl e
           | Inr recs \<Rightarrow> Inr ([[]] # recs))"
      by (simp add: parse_reset_def set_state_def parse_save_field_def split: sum.splits)
    ultimately show ?thesis by (simp add: ih True)
  next
    case False
    have cr: "CR \<notin> set (join_fields (map csv_field fs))"
      using ok by (intro join_fields_no_return) (simp add: csv_field_no_return)
    have "universal_newlines (concat (map csv_writerow (fs # recs))) =
          join_fields (map csv_field fs) @ LF # ?rest"
      using universal_newlines_line [OF cr, of "concat (map csv_writerow recs)"] False
      by (simp add: csv_writerow_def)
    moreover have "reader_records parse_reset
            (readlines [] (join_fields (map csv_field fs) @ LF # ?rest)) =
          (case reader_records parse_reset (readlines [] ?rest) of
             Inl e \<Rightarrow> Inl e
           | Inr recs \<Rightarrow> Inr (([] @ fs) # recs))"
      by (rule rest_of_record [OF ne ok _ p]) (simp add: False)
    ultimately show ?thesis by (simp add: ih)
  qed
qed


subsection \<open>The store, written and read back\<close>

lemma map_upds_map:
  "(m(xs [\<mapsto>] map f xs)) k = (if k \<in> set xs then Some (f k) else m k)"
  by (induction xs arbitrary: m) simp_all

lemma make_row_written:
  "make_row FIELDNAMES (map (\<lambda>k. case row k of None \<Rightarrow> [] | Some v \<Rightarrow> v) FIELDNAMES) =
   \<lparr>named = (\<lambda>k. if k \<in> set FIELDNAMES
                  then Some (Some (case row k of None \<Rightarrow> [] | Some v \<Rightarrow> v)) else None),
    extra = None\<rparr>"
  by (simp add: make_row_def Let_def map_upds_map fun_eq_iff)

lemma FIELDNAMES_fields:
  "FIELDNAMES \<noteq> [] \<and> (\<forall>f\<in>set FIELDNAMES. CR \<notin> set f \<and> length f \<le> field_limit)"
  by (simp add: FIELDNAMES_def field_limit_def)

text \<open>
  A store that holds the header and records written by the writer, none of them empty
  and none with a carriage return in a field or a field over the reader's limit, is read
  as those records.
\<close>

lemma read_rsvps_written:
  assumes "\<forall>fs\<in>set recs. fs \<noteq> [] \<and> (\<forall>f\<in>set fs. CR \<notin> set f \<and> length f \<le> field_limit)"
  shows "fst (read_rsvps (Some (concat (map csv_writerow (FIELDNAMES # recs))))) =
         Inr (map (make_row FIELDNAMES) recs)"
proof -
  from assms FIELDNAMES_fields
  have "\<forall>fs\<in>set (FIELDNAMES # recs).
          fs \<noteq> [] \<and> (\<forall>f\<in>set fs. CR \<notin> set f \<and> length f \<le> field_limit)"
    by simp
  from reader_records_written [OF this]
  have "dict_reader (readlines []
          (universal_newlines (concat (map csv_writerow (FIELDNAMES # recs))))) =
        Inr (map (make_row FIELDNAMES) (filter (\<lambda>row. row \<noteq> []) recs))"
    by (simp only: dict_reader_def sum.case list.case)
  moreover from assms have "filter (\<lambda>row. row \<noteq> []) recs = recs"
    by (simp add: filter_id_conv)
  ultimately show ?thesis
    by (simp only: read_rsvps_def ensure_csv_def Let_def option.case fst_conv)
qed

lemma write_rsvp_written:
  assumes "dom row \<subseteq> set FIELDNAMES"
  shows "snd (write_rsvp row (Some (concat (map csv_writerow (FIELDNAMES # recs))))) =
         Some (concat (map csv_writerow (FIELDNAMES # recs @
           [map (\<lambda>k. case row k of None \<Rightarrow> [] | Some v \<Rightarrow> v) FIELDNAMES])))"
proof -
  from assms have "dom row - set FIELDNAMES = {}" by blast
  then have "dict_to_list row =
      Inr (map (\<lambda>k. case row k of None \<Rightarrow> [] | Some v \<Rightarrow> v) FIELDNAMES)"
    by (simp only: dict_to_list_def simp_thms if_False)
  then show ?thesis
    by (simp add: write_rsvp_def ensure_csv_def Let_def)
qed

text \<open>
  The round trip of \<open>write_rsvp\<close> and \<open>read_rsvps\<close> without carriage returns: on such a
  store, a record with every field name, no carriage return in a value and no value
  over the reader's limit is read back as the last record, after the records read
  before, with the values that were written.
\<close>

lemma write_then_read_without_return:
  assumes "\<forall>fs\<in>set recs. fs \<noteq> [] \<and> (\<forall>f\<in>set fs. CR \<notin> set f \<and> length f \<le> field_limit)"
    and "dom row = set FIELDNAMES"
    and "\<forall>v\<in>ran row. CR \<notin> set v \<and> length v \<le> field_limit"
  shows "\<exists>rows.
           fst (read_rsvps (Some (concat (map csv_writerow (FIELDNAMES # recs))))) = Inr rows \<and>
           fst (read_rsvps
             (snd (write_rsvp row (Some (concat (map csv_writerow (FIELDNAMES # recs))))))) =
           Inr (rows @ [\<lparr>named = map_option Some \<circ> row, extra = None\<rparr>])"
proof -
  let ?fs = "map (\<lambda>k. case row k of None \<Rightarrow> [] | Some v \<Rightarrow> v) FIELDNAMES"
  have v: "CR \<notin> set f \<and> length f \<le> field_limit" if "f \<in> set ?fs" for f
  proof -
    from that obtain k where k: "k \<in> set FIELDNAMES" and
      f: "f = (case row k of None \<Rightarrow> [] | Some v \<Rightarrow> v)"
      by auto
    from k assms(2) obtain w where w: "row k = Some w" by blast
    then have "w \<in> ran row" by (rule ranI)
    with assms(3) f w show ?thesis by simp
  qed
  have "?fs \<noteq> []" by (simp add: FIELDNAMES_def)
  with v assms(1)
  have ok: "\<forall>fs\<in>set (recs @ [?fs]).
      fs \<noteq> [] \<and> (\<forall>f\<in>set fs. CR \<notin> set f \<and> length f \<le> field_limit)"
    by auto
  have "make_row FIELDNAMES ?fs = \<lparr>named = map_option Some \<circ> row, extra = None\<rparr>"
    unfolding make_row_written using assms(2)
    by (auto simp: fun_eq_iff domIff split: option.splits)
  with read_rsvps_written [OF ok] read_rsvps_written [OF assms(1)]
    write_rsvp_written [of row recs] assms(2)
  show ?thesis by simp
qed

section \<open>Properties of the listing\<close>

subsection \<open>The sums\<close>

lemma sum_attending_Inr:
  "sum_attending v acc rows = Inr n \<Longrightarrow>
   n = acc + int (length (filter (attending_is v) rows))"
proof (induction rows arbitrary: acc)
  case Nil
  then show ?case by simp
next
  case (Cons r rows)
  from Cons.prems obtain a where a: "named r ''attending'' = Some a"
    by (cases "named r ''attending''") (simp_all add: getitem_def)
  with Cons.prems have
    rest: "sum_attending v (if a = Some v then acc + 1 else acc) rows = Inr n"
    by (simp add: getitem_def)
  from Cons.IH [OF rest] a show ?case
    by (simp add: attending_is_def)
qed

lemma sum_attending_total:
  "list_all (\<lambda>r. named r ''attending'' \<noteq> None) rows \<Longrightarrow> \<exists>n. sum_attending v acc rows = Inr n"
proof (induction rows arbitrary: acc)
  case Nil
  then show ?case by simp
next
  case (Cons r rows)
  then show ?case
    by (cases "named r ''attending''") (auto simp: getitem_def)
qed

lemma sum_guests_Inr:
  "sum_guests acc rows = Inr n \<Longrightarrow>
   n = acc + sum_list (map guests_of (filter (attending_is ''yes'') rows))"
proof (induction rows arbitrary: acc)
  case Nil
  then show ?case by simp
next
  case (Cons r rows)
  show ?case
  proof (cases "attending_is ''yes'' r")
    case True
    then have a: "getitem r ''attending'' = Inr (Some ''yes'')"
      by (simp add: attending_is_def getitem_def)
    from Cons.prems a obtain g m where
      g: "named r ''guests'' = Some (Some g)" and m: "py_int g = Inr m" and
      rest: "sum_guests (acc + m) rows = Inr n"
      by (auto simp: getitem_def split: option.splits sum.splits)
    from g m have "guests_of r = m" by (simp add: guests_of_def)
    with Cons.IH [OF rest] True show ?thesis by simp
  next
    case False
    with Cons.prems have "sum_guests acc rows = Inr n"
      by (auto simp: getitem_def attending_is_def split: option.splits if_splits)
    from Cons.IH [OF this] False show ?thesis by simp
  qed
qed

lemma sum_guests_total:
  "list_all complete_record rows \<Longrightarrow> \<exists>n. sum_guests acc rows = Inr n"
proof (induction rows arbitrary: acc)
  case Nil
  then show ?case by simp
next
  case (Cons r rows)
  from Cons.prems have c: "complete_record r" and cs: "list_all complete_record rows"
    by simp_all
  from c obtain g m where g: "named r ''guests'' = Some (Some g)" and m: "py_int g = Inr m"
    by (auto simp: complete_record_def split: option.splits sum.splits)
  from c have "''attending'' \<in> dom (named r)"
    by (simp add: complete_record_def FIELDNAMES_def)
  then obtain a where a: "named r ''attending'' = Some a" by blast
  show ?case
    using Cons.IH [OF cs, of acc] Cons.IH [OF cs, of "acc + m"] g m a
    by (simp add: getitem_def)
qed

subsection \<open>The sort\<close>

lemma sort_keys_Inr:
  "sort_keys rows = Inr ks \<Longrightarrow> ks = map (\<lambda>r. the (named r ''timestamp'')) rows"
proof (induction rows arbitrary: ks)
  case Nil
  then show ?case by simp
next
  case (Cons r rows)
  then show ?case
    by (auto simp: getitem_def split: option.splits sum.splits)
qed

lemma sort_keys_total:
  "list_all (\<lambda>r. named r ''timestamp'' \<noteq> None) rows \<Longrightarrow>
   sort_keys rows = Inr (map (\<lambda>r. the (named r ''timestamp'')) rows)"
  by (induction rows) (auto simp: getitem_def)

lemma sort_by_timestamp_reverse_Inr:
  "sort_by_timestamp_reverse rows = Inr sorted_rows \<Longrightarrow>
   sorted_rows = rev (sort_key timestamp_key (rev rows))"
  by (auto simp: sort_by_timestamp_reverse_def split: sum.splits if_splits)

lemma sort_by_timestamp_reverse_total:
  assumes "list_all complete_record rows"
  shows "sort_by_timestamp_reverse rows = Inr (rev (sort_key timestamp_key (rev rows)))"
proof -
  have ts: "named r ''timestamp'' \<noteq> None \<and> named r ''timestamp'' \<noteq> Some None"
    if "complete_record r" for r
  proof -
    from that have "''timestamp'' \<in> dom (named r)"
      by (simp add: complete_record_def FIELDNAMES_def)
    moreover from that have "named r ''timestamp'' \<noteq> Some None"
      by (simp add: complete_record_def FIELDNAMES_def)
    ultimately show ?thesis by blast
  qed
  from assms ts have "list_all (\<lambda>r. named r ''timestamp'' \<noteq> None) rows"
    by (simp add: list_all_iff)
  then have k: "sort_keys rows = Inr (map (\<lambda>r. the (named r ''timestamp'')) rows)"
    by (rule sort_keys_total)
  have "the (named r ''timestamp'') \<noteq> None" if "r \<in> set rows" for r
  proof -
    from that assms have "complete_record r" by (simp add: list_all_iff)
    from ts [OF this] obtain y where "named r ''timestamp'' = Some y" "y \<noteq> None"
      by auto
    then show ?thesis by simp
  qed
  note nn = this
  have "\<not> list_ex (\<lambda>k. k = None) (map (\<lambda>r. the (named r ''timestamp'')) rows)"
  proof
    assume "list_ex (\<lambda>k. k = None) (map (\<lambda>r. the (named r ''timestamp'')) rows)"
    then obtain r where "r \<in> set rows" "the (named r ''timestamp'') = None"
      by (auto simp: list_ex_iff)
    with nn show False by blast
  qed
  with k show ?thesis
    by (simp add: sort_by_timestamp_reverse_def)
qed

lemma reverse_sort_mset: "mset (rev (sort_key k (rev xs))) = mset xs"
  by simp

lemma reverse_sort_descending:
  "sorted_wrt (\<lambda>a b. k b \<le> k a) (rev (sort_key k (rev xs)))"
proof -
  have "sorted (map k (sort_key k (rev xs)))" by simp
  then have "sorted_wrt (\<lambda>a b. k a \<le> k b) (sort_key k (rev xs))"
    by (simp add: sorted_map)
  then show ?thesis
    by (simp add: sorted_wrt_rev)
qed

lemma reverse_sort_stable:
  "filter (\<lambda>r. k r = t) (rev (sort_key k (rev xs))) = filter (\<lambda>r. k r = t) xs"
proof -
  have "filter (\<lambda>r. k r = t) (rev (sort_key k (rev xs))) =
        rev (filter (\<lambda>r. k r = t) (sort_key k (rev xs)))"
    by (simp add: rev_filter)
  also have "\<dots> = rev (filter (\<lambda>r. k r = t) (rev xs))"
    by (simp only: sort_key_stable)
  also have "\<dots> = filter (\<lambda>r. k r = t) xs"
    by (simp add: rev_filter)
  finally show ?thesis .
qed

text \<open>
  The three properties fix the result: whatever stable sorting algorithm \<open>list.sort\<close>
  runs, a permutation that is descending in the key and keeps the order among equal
  keys is the list computed here.
\<close>

lemma reverse_sort_unique:
  assumes "mset ys = mset xs"
    and "sorted_wrt (\<lambda>a b. k b \<le> k a) ys"
    and "\<And>t. filter (\<lambda>r. k r = t) ys = filter (\<lambda>r. k r = t) xs"
  shows "ys = rev (sort_key k (rev xs))"
proof -
  have m: "mset (rev ys) = mset (rev xs)"
    using assms(1) by simp
  have s: "sorted (map k (rev ys))"
    using assms(2) by (simp add: sorted_map sorted_wrt_rev)
  have f: "filter (\<lambda>x. k r = k x) (rev ys) = filter (\<lambda>x. k r = k x) (rev xs)" for r
  proof -
    have "(\<lambda>x. k r = k x) = (\<lambda>x. k x = k r)" by auto
    moreover have "filter (\<lambda>x. k x = k r) (rev ys) = filter (\<lambda>x. k x = k r) (rev xs)"
      by (simp only: rev_filter [symmetric] assms(3) [of "k r"])
    ultimately show ?thesis by simp
  qed
  have "sort_key k (rev xs) = rev ys"
    by (rule properties_for_sort_key [OF m f s])
  then show ?thesis by simp
qed

lemma count_by_mset:
  "mset xs = mset ys \<Longrightarrow> length (filter P xs) = length (filter P ys)"
proof -
  assume "mset xs = mset ys"
  then have "mset (filter P xs) = mset (filter P ys)" by simp
  then show ?thesis by (rule mset_eq_length)
qed

lemma sum_by_mset:
  "mset xs = mset ys \<Longrightarrow>
   sum_list (map f (filter P xs)) = sum_list (map (f :: 'a \<Rightarrow> int) (filter P ys))"
proof -
  assume "mset xs = mset ys"
  then have "mset (map f (filter P xs)) = mset (map f (filter P ys))" by simp
  then show ?thesis by (metis sum_mset_sum_list)
qed

subsection \<open>The page\<close>

lemma rsvps_page_Inr:
  assumes "rsvps_page rows = Inr (shown, totals)"
  shows "rows \<noteq> [] \<and> shown = rev (sort_key timestamp_key (rev rows)) \<and>
     totals =
       [''yes'' \<mapsto> int (length (filter (attending_is ''yes'') rows)),
        ''no'' \<mapsto> int (length (filter (attending_is ''no'') rows)),
        ''guests'' \<mapsto> sum_list (map guests_of (filter (attending_is ''yes'') rows))]"
proof -
  from assms have ne: "rows \<noteq> []"
    by (auto simp: rsvps_page_def split: if_splits)
  from assms ne obtain s y n g where
    s: "sort_by_timestamp_reverse rows = Inr s" and
    y: "sum_attending ''yes'' 0 s = Inr y" and
    n: "sum_attending ''no'' 0 s = Inr n" and
    g: "sum_guests 0 s = Inr g" and
    sh: "shown = s" and
    t: "totals = [''yes'' \<mapsto> y, ''no'' \<mapsto> n, ''guests'' \<mapsto> g]"
    by (auto simp: rsvps_page_def split: sum.splits)
  from s have s': "s = rev (sort_key timestamp_key (rev rows))"
    by (rule sort_by_timestamp_reverse_Inr)
  then have m: "mset s = mset rows" by simp
  from sum_attending_Inr [OF y] count_by_mset [OF m]
  have y': "y = int (length (filter (attending_is ''yes'') rows))" by simp
  from sum_attending_Inr [OF n] count_by_mset [OF m]
  have n': "n = int (length (filter (attending_is ''no'') rows))" by simp
  from sum_guests_Inr [OF g] sum_by_mset [OF m]
  have g': "g = sum_list (map guests_of (filter (attending_is ''yes'') rows))" by simp
  from ne sh s' t y' n' g' show ?thesis by simp
qed

lemma rsvps_page_total:
  assumes "rows \<noteq> []" and "list_all complete_record rows"
  shows "\<exists>shown totals. rsvps_page rows = Inr (shown, totals)"
proof -
  let ?s = "rev (sort_key timestamp_key (rev rows))"
  have s: "sort_by_timestamp_reverse rows = Inr ?s"
    using assms(2) by (rule sort_by_timestamp_reverse_total)
  have c: "list_all complete_record ?s"
    using assms(2) by (simp add: list_all_iff)
  have "named r ''attending'' \<noteq> None" if "complete_record r" for r
  proof -
    from that have "''attending'' \<in> dom (named r)"
      by (simp add: complete_record_def FIELDNAMES_def)
    then show ?thesis by blast
  qed
  with c have a: "list_all (\<lambda>r. named r ''attending'' \<noteq> None) ?s"
    by (simp add: list_all_iff)
  from sum_attending_total [OF a] obtain y where y: "sum_attending ''yes'' 0 ?s = Inr y"
    by blast
  from sum_attending_total [OF a] obtain n where n: "sum_attending ''no'' 0 ?s = Inr n"
    by blast
  from sum_guests_total [OF c] obtain g where g: "sum_guests 0 ?s = Inr g"
    by blast
  from assms(1) s y n g show ?thesis
    by (simp add: rsvps_page_def)
qed

lemma list_rsvps_read:
  "fst (read_rsvps st) = Inr rows \<Longrightarrow> fst (list_rsvps st) = rsvps_page rows"
  by (cases "read_rsvps st") (simp add: list_rsvps_def)

lemma sort_keys_present:
  "sort_keys rows = Inr ks \<Longrightarrow> list_all (\<lambda>r. named r ''timestamp'' \<noteq> None) rows"
proof (induction rows arbitrary: ks)
  case Nil
  then show ?case by simp
next
  case (Cons r rows)
  then show ?case
    by (auto simp: getitem_def split: option.splits sum.splits)
qed

lemma sort_by_timestamp_reverse_keys:
  assumes "sort_by_timestamp_reverse rows = Inr sorted_rows" and "2 \<le> length rows"
  shows "list_all (\<lambda>r. named r ''timestamp'' = Some (Some (timestamp_key r))) rows"
proof -
  from assms obtain ks where k: "sort_keys rows = Inr ks" and
    n: "\<not> list_ex (\<lambda>k. k = None) ks"
    by (auto simp: sort_by_timestamp_reverse_def split: sum.splits if_splits)
  from sort_keys_Inr [OF k] have ks: "ks = map (\<lambda>r. the (named r ''timestamp'')) rows" .
  from sort_keys_present [OF k] have p: "list_all (\<lambda>r. named r ''timestamp'' \<noteq> None) rows" .
  have "named r ''timestamp'' = Some (Some (timestamp_key r))" if "r \<in> set rows" for r
  proof -
    from that p obtain y where y: "named r ''timestamp'' = Some y"
      by (auto simp: list_all_iff)
    from that n ks y have "y \<noteq> None"
      by (force simp: list_ex_iff)
    then obtain t where "y = Some t" by blast
    with y show ?thesis by (simp add: timestamp_key_def)
  qed
  then show ?thesis by (simp add: list_all_iff)
qed

subsection \<open>The totals\<close>

text \<open>
  C6. For the records \<open>rows\<close> that \<open>read_rsvps\<close> gives, every listing that
  \<open>list_rsvps\<close> renders has totals with exactly the keys \<open>yes\<close>, \<open>no\<close> and
  \<open>guests\<close>: the number of records whose attending field is \<open>"yes"\<close>, the number of
  those whose attending field is \<open>"no"\<close>, and the sum of the guest counts over the
  records whose attending field is \<open>"yes"\<close> only. The listing is rendered whenever
  there is a record and the records are complete.
\<close>

theorem list_rsvps_totals:
  "fst (read_rsvps st) = Inr rows \<Longrightarrow>
   (\<forall>shown totals. fst (list_rsvps st) = Inr (shown, totals) \<longrightarrow>
      totals ''yes'' = Some (int (length (filter (attending_is ''yes'') rows))) \<and>
      totals ''no'' = Some (int (length (filter (attending_is ''no'') rows))) \<and>
      totals ''guests'' = Some (sum_list (map guests_of (filter (attending_is ''yes'') rows))) \<and>
      dom totals = {''yes'', ''no'', ''guests''}) \<and>
   (rows \<noteq> [] \<and> list_all complete_record rows \<longrightarrow>
      (\<exists>shown totals. fst (list_rsvps st) = Inr (shown, totals)))"
proof (intro conjI allI impI)
  fix shown totals
  assume r: "fst (read_rsvps st) = Inr rows" and l: "fst (list_rsvps st) = Inr (shown, totals)"
  from l list_rsvps_read [OF r] have "rsvps_page rows = Inr (shown, totals)" by simp
  from rsvps_page_Inr [OF this] have
    t: "totals =
       [''yes'' \<mapsto> int (length (filter (attending_is ''yes'') rows)),
        ''no'' \<mapsto> int (length (filter (attending_is ''no'') rows)),
        ''guests'' \<mapsto> sum_list (map guests_of (filter (attending_is ''yes'') rows))]"
    by blast
  show "totals ''yes'' = Some (int (length (filter (attending_is ''yes'') rows)))"
    by (simp add: t)
  show "totals ''no'' = Some (int (length (filter (attending_is ''no'') rows)))"
    by (simp add: t)
  show "totals ''guests'' =
      Some (sum_list (map guests_of (filter (attending_is ''yes'') rows)))"
    by (simp add: t)
  show "dom totals = {''yes'', ''no'', ''guests''}"
    unfolding t by (simp only: dom_fun_upd dom_empty option.simps if_False) blast
next
  assume r: "fst (read_rsvps st) = Inr rows" and
    c: "rows \<noteq> [] \<and> list_all complete_record rows"
  from c rsvps_page_total [of rows] list_rsvps_read [OF r]
  show "\<exists>shown totals. fst (list_rsvps st) = Inr (shown, totals)" by simp
qed

subsection \<open>The order of the listing\<close>

text \<open>
  C7. For the records \<open>rows\<close> that \<open>read_rsvps\<close> gives, every listing that
  \<open>list_rsvps\<close> renders shows the same records, sorted by timestamp in descending
  order, and the records of any one timestamp stand in the order of \<open>rows\<close>, the order
  in which they were appended. With two records or more the sort key of each record is
  the string of its timestamp field. The listing is rendered whenever there is a record
  and the records are complete.
\<close>

theorem list_rsvps_sorted_stable:
  "fst (read_rsvps st) = Inr rows \<Longrightarrow>
   (\<forall>shown totals. fst (list_rsvps st) = Inr (shown, totals) \<longrightarrow>
      mset shown = mset rows \<and>
      sorted_wrt (\<lambda>a b. timestamp_key b \<le> timestamp_key a) shown \<and>
      (\<forall>t. filter (\<lambda>r. timestamp_key r = t) shown = filter (\<lambda>r. timestamp_key r = t) rows) \<and>
      (2 \<le> length rows \<longrightarrow>
         list_all (\<lambda>r. named r ''timestamp'' = Some (Some (timestamp_key r))) rows)) \<and>
   (rows \<noteq> [] \<and> list_all complete_record rows \<longrightarrow>
      (\<exists>shown totals. fst (list_rsvps st) = Inr (shown, totals)))"
proof (intro conjI allI impI)
  fix shown totals
  assume r: "fst (read_rsvps st) = Inr rows" and l: "fst (list_rsvps st) = Inr (shown, totals)"
  from l list_rsvps_read [OF r] have p: "rsvps_page rows = Inr (shown, totals)" by simp
  from rsvps_page_Inr [OF p] have s: "shown = rev (sort_key timestamp_key (rev rows))"
    by blast
  show "mset shown = mset rows"
    unfolding s by (rule reverse_sort_mset)
  show "sorted_wrt (\<lambda>a b. timestamp_key b \<le> timestamp_key a) shown"
    unfolding s by (rule reverse_sort_descending)
  show "filter (\<lambda>r. timestamp_key r = t) shown = filter (\<lambda>r. timestamp_key r = t) rows" for t
    unfolding s by (rule reverse_sort_stable)
  assume two: "2 \<le> length rows"
  from p obtain sr where "sort_by_timestamp_reverse rows = Inr sr"
    by (auto simp: rsvps_page_def split: if_splits sum.splits)
  from sort_by_timestamp_reverse_keys [OF this two]
  show "list_all (\<lambda>r. named r ''timestamp'' = Some (Some (timestamp_key r))) rows" .
next
  assume r: "fst (read_rsvps st) = Inr rows" and
    c: "rows \<noteq> [] \<and> list_all complete_record rows"
  from c rsvps_page_total [of rows] list_rsvps_read [OF r]
  show "\<exists>shown totals. fst (list_rsvps st) = Inr (shown, totals)" by simp
qed

theorem list_rsvps_totals_witness:
  "\<exists>shown totals.
     fst (list_rsvps
       (Some (''timestamp,name,email,attending,guests,note'' @ [CR, LF] @
              ''2024-07-01,Ann,ann@x.org,yes,2,'' @ [CR, LF] @
              ''2024-07-02,Bob,bob@x.org,no,3,'' @ [CR, LF] @
              ''2024-07-03,Cy,cy@x.org,yes,1,hi'' @ [CR, LF]))) = Inr (shown, totals) \<and>
     totals ''yes'' = Some 2 \<and> totals ''no'' = Some 1 \<and> totals ''guests'' = Some 3"
proof -
  let ?st = "Some (''timestamp,name,email,attending,guests,note'' @ [CR, LF] @
              ''2024-07-01,Ann,ann@x.org,yes,2,'' @ [CR, LF] @
              ''2024-07-02,Bob,bob@x.org,no,3,'' @ [CR, LF] @
              ''2024-07-03,Cy,cy@x.org,yes,1,hi'' @ [CR, LF])"
  let ?r1 = "\<lparr>named = [''timestamp'' \<mapsto> Some ''2024-07-01'', ''name'' \<mapsto> Some ''Ann'',
                       ''email'' \<mapsto> Some ''ann@x.org'', ''attending'' \<mapsto> Some ''yes'',
                       ''guests'' \<mapsto> Some ''2'', ''note'' \<mapsto> Some []],
              extra = None\<rparr>"
  let ?r2 = "\<lparr>named = [''timestamp'' \<mapsto> Some ''2024-07-02'', ''name'' \<mapsto> Some ''Bob'',
                       ''email'' \<mapsto> Some ''bob@x.org'', ''attending'' \<mapsto> Some ''no'',
                       ''guests'' \<mapsto> Some ''3'', ''note'' \<mapsto> Some []],
              extra = None\<rparr>"
  let ?r3 = "\<lparr>named = [''timestamp'' \<mapsto> Some ''2024-07-03'', ''name'' \<mapsto> Some ''Cy'',
                       ''email'' \<mapsto> Some ''cy@x.org'', ''attending'' \<mapsto> Some ''yes'',
                       ''guests'' \<mapsto> Some ''1'', ''note'' \<mapsto> Some ''hi''],
              extra = None\<rparr>"
  have r: "fst (read_rsvps ?st) = Inr [?r1, ?r2, ?r3]"
    by (simp add: read_rsvps_def ensure_csv_def eval_reader)
  have i: "py_int ''2'' = Inr 2" "py_int ''3'' = Inr 3" "py_int ''1'' = Inr 1"
    by (simp_all add: eval_py_int)
  have c: "[?r1, ?r2, ?r3] \<noteq> [] \<and> list_all complete_record [?r1, ?r2, ?r3]"
    by (auto simp: complete_record_def FIELDNAMES_def i)
  have y: "int (length (filter (attending_is ''yes'') [?r1, ?r2, ?r3])) = 2"
    and n: "int (length (filter (attending_is ''no'') [?r1, ?r2, ?r3])) = 1"
    and g: "sum_list (map guests_of (filter (attending_is ''yes'') [?r1, ?r2, ?r3])) = 3"
    by (simp_all add: attending_is_def guests_of_def i)
  from list_rsvps_totals [OF r] c obtain shown totals where
    l: "fst (list_rsvps ?st) = Inr (shown, totals)"
    by blast
  with list_rsvps_totals [OF r] have
    "totals ''yes'' = Some (int (length (filter (attending_is ''yes'') [?r1, ?r2, ?r3])))"
    "totals ''no'' = Some (int (length (filter (attending_is ''no'') [?r1, ?r2, ?r3])))"
    "totals ''guests'' =
       Some (sum_list (map guests_of (filter (attending_is ''yes'') [?r1, ?r2, ?r3])))"
    by blast+
  then have "totals ''yes'' = Some 2" "totals ''no'' = Some 1" "totals ''guests'' = Some 3"
    by (simp_all only: y n g)
  with l show ?thesis by blast
qed

theorem list_rsvps_sorted_stable_witness:
  "\<exists>totals.
     fst (list_rsvps
       (Some (''timestamp,name,email,attending,guests,note'' @ [CR, LF] @
              ''2024-07-02,Ann,a@x.org,no,0,x'' @ [CR, LF] @
              ''2024-07-01,Bob,b@x.org,no,0,x'' @ [CR, LF] @
              ''2024-07-02,Cy,c@x.org,no,0,x'' @ [CR, LF]))) =
     Inr ([\<lparr>named = [''timestamp'' \<mapsto> Some ''2024-07-02'', ''name'' \<mapsto> Some ''Ann'',
                      ''email'' \<mapsto> Some ''a@x.org'', ''attending'' \<mapsto> Some ''no'',
                      ''guests'' \<mapsto> Some ''0'', ''note'' \<mapsto> Some ''x''],
             extra = None\<rparr>,
           \<lparr>named = [''timestamp'' \<mapsto> Some ''2024-07-02'', ''name'' \<mapsto> Some ''Cy'',
                      ''email'' \<mapsto> Some ''c@x.org'', ''attending'' \<mapsto> Some ''no'',
                      ''guests'' \<mapsto> Some ''0'', ''note'' \<mapsto> Some ''x''],
             extra = None\<rparr>,
           \<lparr>named = [''timestamp'' \<mapsto> Some ''2024-07-01'', ''name'' \<mapsto> Some ''Bob'',
                      ''email'' \<mapsto> Some ''b@x.org'', ''attending'' \<mapsto> Some ''no'',
                      ''guests'' \<mapsto> Some ''0'', ''note'' \<mapsto> Some ''x''],
             extra = None\<rparr>],
          totals) \<and>
     sorted_wrt (\<lambda>a b. timestamp_key b \<le> timestamp_key a)
       [\<lparr>named = [''timestamp'' \<mapsto> Some ''2024-07-02'', ''name'' \<mapsto> Some ''Ann'',
                   ''email'' \<mapsto> Some ''a@x.org'', ''attending'' \<mapsto> Some ''no'',
                   ''guests'' \<mapsto> Some ''0'', ''note'' \<mapsto> Some ''x''],
          extra = None\<rparr>,
        \<lparr>named = [''timestamp'' \<mapsto> Some ''2024-07-02'', ''name'' \<mapsto> Some ''Cy'',
                   ''email'' \<mapsto> Some ''c@x.org'', ''attending'' \<mapsto> Some ''no'',
                   ''guests'' \<mapsto> Some ''0'', ''note'' \<mapsto> Some ''x''],
          extra = None\<rparr>,
        \<lparr>named = [''timestamp'' \<mapsto> Some ''2024-07-01'', ''name'' \<mapsto> Some ''Bob'',
                   ''email'' \<mapsto> Some ''b@x.org'', ''attending'' \<mapsto> Some ''no'',
                   ''guests'' \<mapsto> Some ''0'', ''note'' \<mapsto> Some ''x''],
          extra = None\<rparr>]"
proof -
  let ?st = "Some (''timestamp,name,email,attending,guests,note'' @ [CR, LF] @
              ''2024-07-02,Ann,a@x.org,no,0,x'' @ [CR, LF] @
              ''2024-07-01,Bob,b@x.org,no,0,x'' @ [CR, LF] @
              ''2024-07-02,Cy,c@x.org,no,0,x'' @ [CR, LF])"
  let ?a = "\<lparr>named = [''timestamp'' \<mapsto> Some ''2024-07-02'', ''name'' \<mapsto> Some ''Ann'',
                      ''email'' \<mapsto> Some ''a@x.org'', ''attending'' \<mapsto> Some ''no'',
                      ''guests'' \<mapsto> Some ''0'', ''note'' \<mapsto> Some ''x''],
             extra = None\<rparr>"
  let ?b = "\<lparr>named = [''timestamp'' \<mapsto> Some ''2024-07-01'', ''name'' \<mapsto> Some ''Bob'',
                      ''email'' \<mapsto> Some ''b@x.org'', ''attending'' \<mapsto> Some ''no'',
                      ''guests'' \<mapsto> Some ''0'', ''note'' \<mapsto> Some ''x''],
             extra = None\<rparr>"
  let ?c = "\<lparr>named = [''timestamp'' \<mapsto> Some ''2024-07-02'', ''name'' \<mapsto> Some ''Cy'',
                      ''email'' \<mapsto> Some ''c@x.org'', ''attending'' \<mapsto> Some ''no'',
                      ''guests'' \<mapsto> Some ''0'', ''note'' \<mapsto> Some ''x''],
             extra = None\<rparr>"
  have r: "fst (read_rsvps ?st) = Inr [?a, ?b, ?c]"
    by (simp add: read_rsvps_def ensure_csv_def eval_reader)
  have "\<exists>totals. rsvps_page [?a, ?b, ?c] = Inr ([?a, ?c, ?b], totals)"
    by (simp add: rsvps_page_def sort_by_timestamp_reverse_def getitem_def timestamp_key_def)
  with list_rsvps_read [OF r] obtain totals where
    l: "fst (list_rsvps ?st) = Inr ([?a, ?c, ?b], totals)"
    by auto
  from list_rsvps_sorted_stable [OF r] l have
    s: "sorted_wrt (\<lambda>a b. timestamp_key b \<le> timestamp_key a) [?a, ?c, ?b]"
    by blast
  from l s show ?thesis by blast
qed

end
